theory Spec2Isabelle
  imports Complex_Main
begin

section \<open>Python floats\<close>

text \<open>
  \<^verbatim>\<open>time.time()\<close> returns a finite binary64 value, and \<^verbatim>\<open>get_distance\<close> subtracts two
  of them, multiplies by 17150 and calls \<^verbatim>\<open>round(_, 2)\<close>. A float is modelled by the
  rational it denotes, or one of the three special values; every operation computes the
  exact rational result and rounds it to the nearest binary64 value, ties to even, as
  IEEE 754 prescribes. The sign of zero is not represented.
\<close>

datatype pyfloat = Finite rat | PosInf | NegInf | NaN

definition round_half_even :: "rat \<Rightarrow> int" where
  "round_half_even x =
     (let f = \<lfloor>x\<rfloor>; d = x - of_int f
      in if d < 1 / 2 then f
         else if 1 / 2 < d then f + 1
         else if even f then f else f + 1)"

definition pow2 :: "int \<Rightarrow> rat" where
  "pow2 k = (if 0 \<le> k then 2 ^ nat k else 1 / 2 ^ nat (- k))"

text \<open>The number of binary digits of a positive integer, as \<^verbatim>\<open>int.bit_length\<close> gives it.\<close>

function bit_length :: "int \<Rightarrow> nat" where
  "bit_length n = (if n \<le> 0 then 0 else Suc (bit_length (n div 2)))"
  by pat_completeness auto
termination
  by (relation "measure nat") auto

declare bit_length.simps [simp del]

text \<open>\<open>ilog2 x\<close> is the exponent \<open>e\<close> with \<open>2 ^ e \<le> x < 2 ^ (e + 1)\<close>, for \<open>0 < x\<close>.\<close>

definition ilog2 :: "rat \<Rightarrow> int" where
  "ilog2 x =
     (if 1 \<le> x then int (bit_length \<lfloor>x\<rfloor>) - 1
      else - int (bit_length (\<lceil>1 / x\<rceil> - 1)))"

text \<open>
  Rounding to binary64: 53 significant bits, the exponent of the leading bit at least
  \<open>-1022\<close> (below that the spacing stays \<open>2 ^ -1074\<close>, the subnormal range), and a
  result of magnitude \<open>2 ^ 1024\<close> or more overflows to an infinity.
\<close>

definition to_double :: "rat \<Rightarrow> pyfloat" where
  "to_double x =
     (if x = 0 then Finite 0
      else
        let e = max (ilog2 \<bar>x\<bar>) (- 1022);
            q = pow2 (e - 52);
            m = round_half_even (x / q)
        in if 1023 < e \<or> (e = 1023 \<and> \<bar>m\<bar> = 2 ^ 53)
           then (if 0 < x then PosInf else NegInf)
           else Finite (of_int m * q))"

text \<open>\<^verbatim>\<open>a - b\<close> on two finite floats.\<close>

definition fsub :: "rat \<Rightarrow> rat \<Rightarrow> pyfloat" where
  "fsub a b = to_double (a - b)"

text \<open>\<^verbatim>\<open>x * c\<close> for a finite constant \<open>c\<close>.\<close>

fun fmul :: "pyfloat \<Rightarrow> rat \<Rightarrow> pyfloat" where
  "fmul (Finite x) c = to_double (x * c)"
| "fmul PosInf c = (if 0 < c then PosInf else if c < 0 then NegInf else NaN)"
| "fmul NegInf c = (if 0 < c then NegInf else if c < 0 then PosInf else NaN)"
| "fmul NaN c = NaN"

text \<open>
  \<^verbatim>\<open>round(x, 2)\<close>: the decimal with two places nearest to the exact value of \<open>x\<close>
  (ties to the even last digit), converted back to the nearest float; infinities and
  NaN round to themselves.
\<close>

fun py_round2 :: "pyfloat \<Rightarrow> pyfloat" where
  "py_round2 (Finite x) = to_double (of_int (round_half_even (x * 100)) / 100)"
| "py_round2 PosInf = PosInf"
| "py_round2 NegInf = NegInf"
| "py_round2 NaN = NaN"

text \<open>The comparison \<^verbatim>\<open>x >= 0\<close>.\<close>

fun fge0 :: "pyfloat \<Rightarrow> bool" where
  "fge0 (Finite x) = (0 \<le> x)"
| "fge0 PosInf = True"
| "fge0 NegInf = False"
| "fge0 NaN = False"

section \<open>The environment and the state of the process\<close>

datatype exn = ConnectionClosed | KeyboardInterrupt | OtherError

datatype send_result = SendOk | SendRaises exn

datatype json = JInt int | JFloat pyfloat | JObject "(string \<times> json) list"

text \<open>
  \<^verbatim>\<open>json.dumps\<close> is kept symbolic: the text it produces for a value is \<open>Dumps\<close> of that
  value, so that two texts are equal exactly when the serialised values are.
\<close>

datatype json_text = Dumps json

definition json_dumps :: "json \<Rightarrow> json_text" where
  "json_dumps v = Dumps v"

text \<open>
  The characters of such a text, with the separators \<^verbatim>\<open>json.dumps\<close> uses by default.
  An integer is written in decimal, a key between double quotes (with the escapes of the
  quote, the backslash, newline, carriage return and tab; the keys of this program are
  plain letters), an object between braces. An infinity and NaN are written
  \<^verbatim>\<open>Infinity\<close>, \<^verbatim>\<open>-Infinity\<close> and \<^verbatim>\<open>NaN\<close>, which are not JSON. The digits of a finite
  float are those of \<^verbatim>\<open>float.__repr__\<close>, a function of the library that is taken as the
  parameter \<open>float_repr\<close>.
\<close>

function nat_chars :: "nat \<Rightarrow> string" where
  "nat_chars n =
     (if n < 10 then [''0123456789'' ! n]
      else nat_chars (n div 10) @ [''0123456789'' ! (n mod 10)])"
  by pat_completeness auto
termination
  by (relation "measure id") auto

declare nat_chars.simps [simp del]

definition int_chars :: "int \<Rightarrow> string" where
  "int_chars i = (if i < 0 then CHR ''-'' # nat_chars (nat (- i)) else nat_chars (nat i))"

definition escape_char :: "char \<Rightarrow> string" where
  "escape_char ch =
     (if ch = CHR 0x22 then [CHR 0x5C, CHR 0x22]
      else if ch = CHR 0x5C then [CHR 0x5C, CHR 0x5C]
      else if ch = CHR 0x0A then [CHR 0x5C, CHR ''n'']
      else if ch = CHR 0x0D then [CHR 0x5C, CHR ''r'']
      else if ch = CHR 0x09 then [CHR 0x5C, CHR ''t'']
      else [ch])"

definition quoted :: "string \<Rightarrow> string" where
  "quoted s = CHR 0x22 # concat (map escape_char s) @ [CHR 0x22]"

fun join_with :: "string \<Rightarrow> string list \<Rightarrow> string" where
  "join_with sep [] = []"
| "join_with sep [x] = x"
| "join_with sep (x # y # ys) = x @ sep @ join_with sep (y # ys)"

fun json_encode :: "(rat \<Rightarrow> string) \<Rightarrow> json \<Rightarrow> string" where
  "json_encode float_repr (JInt i) = int_chars i"
| "json_encode float_repr (JFloat (Finite x)) = float_repr x"
| "json_encode float_repr (JFloat PosInf) = ''Infinity''"
| "json_encode float_repr (JFloat NegInf) = ''-Infinity''"
| "json_encode float_repr (JFloat NaN) = ''NaN''"
| "json_encode float_repr (JObject kvs) =
     ''{'' @ join_with '', ''
              (map (\<lambda>kv. quoted (fst kv) @ '': '' @ json_encode float_repr (snd kv)) kvs)
       @ ''}''"

fun text_chars :: "(rat \<Rightarrow> string) \<Rightarrow> json_text \<Rightarrow> string" where
  "text_chars float_repr (Dumps v) = json_encode float_repr v"

text \<open>
  What the process does to the outside, in order: assignments to \<^verbatim>\<open>servo.angle\<close>,
  writes to a GPIO line, blocking and cooperative sleeps, texts delivered on a
  connection, lines printed, and the closing of the GPIO chip handle.
\<close>

datatype event =
    ServoAngle int
  | GpioWrite nat bool
  | Sleep rat
  | Send nat json_text
  | AsyncSleep rat
  | Print string
  | GpioChipClose

text \<open>
  The inputs of the process: \<open>echo env k\<close> is the level the \<open>k\<close>-th read of the echo
  line returns, \<open>clock env k\<close> the value of the \<open>k\<close>-th call of \<^verbatim>\<open>time.time()\<close>, and
  \<open>peer env c k\<close> what happens to the \<open>k\<close>-th \<^verbatim>\<open>send\<close> on connection \<open>c\<close>.
\<close>

record env =
  echo :: "nat \<Rightarrow> bool"
  clock :: "nat \<Rightarrow> rat"
  peer :: "nat \<Rightarrow> nat \<Rightarrow> send_result"

record world =
  reads :: nat
  ticks :: nat
  sends :: "nat \<Rightarrow> nat"
  events :: "event list"
  chip_open :: bool
  servo_open :: bool

definition emit :: "event \<Rightarrow> world \<Rightarrow> world" where
  "emit e w = w\<lparr>events := events w @ [e]\<rparr>"

definition TRIG :: nat where "TRIG = 23"

definition ECHO :: nat where "ECHO = 24"

text \<open>Lines 9 to 17: the servo object and the chip handle are created.\<close>

definition startup :: "world \<Rightarrow> world" where
  "startup w = w\<lparr>chip_open := True, servo_open := True\<rparr>"

definition gpio_write :: "nat \<Rightarrow> bool \<Rightarrow> world \<Rightarrow> world" where
  "gpio_write pin level w = emit (GpioWrite pin level) w"

definition gpio_read :: "env \<Rightarrow> world \<Rightarrow> bool \<times> world" where
  "gpio_read env w = (echo env (reads w), w\<lparr>reads := Suc (reads w)\<rparr>)"

definition time_time :: "env \<Rightarrow> world \<Rightarrow> rat \<times> world" where
  "time_time env w = (clock env (ticks w), w\<lparr>ticks := Suc (ticks w)\<rparr>)"

definition time_sleep :: "rat \<Rightarrow> world \<Rightarrow> world" where
  "time_sleep s w = emit (Sleep s) w"

definition asyncio_sleep :: "rat \<Rightarrow> world \<Rightarrow> world" where
  "asyncio_sleep s w = emit (AsyncSleep s) w"

definition print :: "string \<Rightarrow> world \<Rightarrow> world" where
  "print s w = emit (Print s) w"

definition servo_set_angle :: "int \<Rightarrow> world \<Rightarrow> world" where
  "servo_set_angle a w = emit (ServoAngle a) w"

definition gpiochip_close :: "world \<Rightarrow> world" where
  "gpiochip_close w = emit GpioChipClose (w\<lparr>chip_open := False\<rparr>)"

text \<open>
  \<^verbatim>\<open>await websocket.send(text)\<close>: the peer either takes the text or the call raises.
\<close>

definition websocket_send :: "env \<Rightarrow> nat \<Rightarrow> json_text \<Rightarrow> world \<Rightarrow> (exn + unit) \<times> world" where
  "websocket_send env c t w =
     (let w' = w\<lparr>sends := (sends w)(c := Suc (sends w c))\<rparr>
      in case peer env c (sends w c) of
           SendOk \<Rightarrow> (Inr (), emit (Send c t) w')
         | SendRaises e \<Rightarrow> (Inl e, w'))"

section \<open>get\_distance\<close>

text \<open>
  The two busy-wait loops have one shape,
  \<^verbatim>\<open>while GPIO.gpio_read(h, ECHO) == level: t = time.time()\<close>, with \<open>level\<close> 0 in the
  first and 1 in the second. Neither has a bound: a loop that never sees the other
  level does not return, which is the value \<open>None\<close>.
\<close>

partial_function (option) busy_wait :: "env \<Rightarrow> bool \<Rightarrow> rat \<Rightarrow> world \<Rightarrow> (rat \<times> world) option" where
  "busy_wait env level t w =
     (case gpio_read env w of (v, w) \<Rightarrow>
        if v = level then
          (case time_time env w of (t, w) \<Rightarrow> busy_wait env level t w)
        else Some (t, w))"

declare busy_wait.simps [code]

definition trigger :: "world \<Rightarrow> world" where
  "trigger w =
     (let w = gpio_write TRIG False w;
          w = time_sleep (5 / 100) w;
          w = gpio_write TRIG True w;
          w = time_sleep (1 / 100000) w
      in gpio_write TRIG False w)"

definition get_distance :: "env \<Rightarrow> world \<Rightarrow> (pyfloat \<times> world) option" where
  "get_distance env w =
     (let w = trigger w in
      case time_time env w of (pulse_start, w) \<Rightarrow>
      case busy_wait env False pulse_start w of
        None \<Rightarrow> None
      | Some (pulse_start, w) \<Rightarrow>
          (case time_time env w of (pulse_end, w) \<Rightarrow>
           case busy_wait env True pulse_end w of
             None \<Rightarrow> None
           | Some (pulse_end, w) \<Rightarrow>
               let pulse_duration = fsub pulse_end pulse_start;
                   distance_cm = fmul pulse_duration 17150
               in Some (py_round2 distance_cm, w)))"

section \<open>sweep\_sensor, handler and the main block\<close>

definition step :: int where "step = 5"

text \<open>Lines 67 to 73: the update of \<^verbatim>\<open>angle\<close> and \<^verbatim>\<open>direction\<close>.\<close>

definition adjust :: "int \<times> int \<Rightarrow> int \<times> int" where
  "adjust s =
     (case s of (angle, direction) \<Rightarrow>
        let angle = angle + step * direction
        in if 180 \<le> angle then (180, - 1)
           else if angle \<le> 0 then (0, 1)
           else (angle, direction))"

text \<open>
  How a run of a coroutine stands: still in its loop, with the loop's variables, after
  the number of iterations that were asked for; returned; or left by an exception.
\<close>

datatype outcome = Running "int \<times> int" | Returned | Raised exn

text \<open>
  \<open>sweep_loop n\<close> runs at most \<open>n\<close> iterations of the \<^verbatim>\<open>while True\<close> loop from the
  given \<^verbatim>\<open>angle\<close> and \<^verbatim>\<open>direction\<close>. \<open>None\<close> means that a call of \<^verbatim>\<open>get_distance\<close> inside
  never returned.
\<close>

fun sweep_loop :: "nat \<Rightarrow> env \<Rightarrow> nat \<Rightarrow> int \<times> int \<Rightarrow> world \<Rightarrow> (outcome \<times> world) option" where
  "sweep_loop 0 env websocket (angle, direction) w = Some (Running (angle, direction), w)"
| "sweep_loop (Suc n) env websocket (angle, direction) w =
     (let w = servo_set_angle angle w in
      (case get_distance env w of
         None \<Rightarrow> None
       | Some (distance, w) \<Rightarrow>
           (let data = JObject [(''angle'', JInt angle), (''distance'', JFloat distance)] in
            (case websocket_send env websocket (json_dumps data) w of
               (Inl e, w) \<Rightarrow> Some (Raised e, w)
             | (Inr _, w) \<Rightarrow>
                 sweep_loop n env websocket (adjust (angle, direction))
                   (asyncio_sleep (1 / 10) w)))))"

definition sweep_sensor :: "nat \<Rightarrow> env \<Rightarrow> nat \<Rightarrow> world \<Rightarrow> (outcome \<times> world) option" where
  "sweep_sensor n env websocket w = sweep_loop n env websocket (0, 1) w"

definition handler :: "nat \<Rightarrow> env \<Rightarrow> nat \<Rightarrow> string \<Rightarrow> world \<Rightarrow> (outcome \<times> world) option" where
  "handler n env websocket path w =
     (let w = print ''Client connected'' w in
      case sweep_sensor n env websocket w of
        None \<Rightarrow> None
      | Some (Raised e, w) \<Rightarrow>
          if e = ConnectionClosed then Some (Returned, print ''Client disconnected'' w)
          else Some (Raised e, w)
      | Some (r, w) \<Rightarrow> Some (r, w))"

text \<open>
  Lines 95 to 100. \<^verbatim>\<open>asyncio.run(main())\<close> is the event loop of the library serving
  connections; it is a parameter \<open>run\<close>, which from a world either never comes back
  (\<open>None\<close>) or comes back with the exception that ended it, if any, and the world it
  left. The \<^verbatim>\<open>finally\<close> clause then closes the chip handle and the outcome goes on.
\<close>

definition main_block :: "(world \<Rightarrow> (exn option \<times> world) option) \<Rightarrow> world \<Rightarrow> (exn option \<times> world) option" where
  "main_block run w =
     (case run w of
        None \<Rightarrow> None
      | Some (r, w) \<Rightarrow> Some (r, gpiochip_close w))"

section \<open>Reading a run\<close>

text \<open>
  The distance \<^verbatim>\<open>get_distance\<close> computes when, counted from the world \<open>w\<close> it starts in,
  read \<open>i\<close> of the echo line is the first to return 1 and read \<open>j\<close> the first after it
  to return 0: \<^verbatim>\<open>pulse_start\<close> and \<^verbatim>\<open>pulse_end\<close> are then the clock values taken just
  before these two reads.
\<close>

definition measured :: "env \<Rightarrow> world \<Rightarrow> nat \<Rightarrow> nat \<Rightarrow> pyfloat" where
  "measured env w i j =
     py_round2 (fmul (fsub (clock env (ticks w + (j - reads w))) (clock env (ticks w + (i - reads w)))) 17150)"

text \<open>
  The values that \<open>k\<close> calls of \<^verbatim>\<open>get_distance\<close> in a row return, from a world on;
  \<open>None\<close> when one of them does not return.
\<close>

fun measurements :: "nat \<Rightarrow> env \<Rightarrow> world \<Rightarrow> pyfloat list option" where
  "measurements 0 env w = Some []"
| "measurements (Suc k) env w =
     (case get_distance env w of
        None \<Rightarrow> None
      | Some (d, w) \<Rightarrow> map_option ((#) d) (measurements k env w))"

text \<open>
  Of a run that stands at \<open>out\<close> after sending the distances \<open>ds\<close>: they are, in
  order, what the calls of \<^verbatim>\<open>get_distance\<close> returned; when a send raised, one more call
  had returned before it.
\<close>

definition run_measured :: "env \<Rightarrow> world \<Rightarrow> outcome \<Rightarrow> pyfloat list \<Rightarrow> bool" where
  "run_measured env w out ds \<longleftrightarrow>
     (case out of
        Running s \<Rightarrow> measurements (length ds) env w = Some ds
      | _ \<Rightarrow> (\<exists>d. measurements (Suc (length ds)) env w = Some (ds @ [d])))"

text \<open>A world before any input was consumed, and three echo lines.\<close>

definition world0 :: world where
  "world0 = \<lparr>reads = 0, ticks = 0, sends = (\<lambda>c. 0), events = [], chip_open = True, servo_open = True\<rparr>"

definition env_silent :: env where
  "env_silent = \<lparr>echo = (\<lambda>k. False), clock = (\<lambda>k. of_nat k / 1000), peer = (\<lambda>c k. SendOk)\<rparr>"

definition env_stuck :: env where
  "env_stuck = \<lparr>echo = (\<lambda>k. 2 \<le> k), clock = (\<lambda>k. of_nat k / 1000), peer = (\<lambda>c k. SendOk)\<rparr>"

definition env_pulse :: env where
  "env_pulse = \<lparr>echo = (\<lambda>k. k mod 4 = 2 \<or> k mod 4 = 3), clock = (\<lambda>k. of_nat k / 1000), peer = (\<lambda>c k. SendOk)\<rparr>"

text \<open>
  An echo pulse seen at read 1 and gone at read 2, with the clock at 0 before it and at
  the float \<^verbatim>\<open>0.001\<close> after it.
\<close>

definition env_1ms :: env where
  "env_1ms = \<lparr>echo = (\<lambda>k. k = 1),
     clock = (\<lambda>k. if k < 2 then 0 else 1152921504606847 / 1152921504606846976),
     peer = (\<lambda>c k. SendOk)\<rparr>"

text \<open>The events of lines 23 to 29, the trigger pulse.\<close>

definition trigger_events :: "event list" where
  "trigger_events =
     [GpioWrite TRIG False, Sleep (5 / 100), GpioWrite TRIG True, Sleep (1 / 100000),
      GpioWrite TRIG False]"

text \<open>The dictionary of line 63.\<close>

definition reading :: "int \<Rightarrow> pyfloat \<Rightarrow> json" where
  "reading a d = JObject [(''angle'', JInt a), (''distance'', JFloat d)]"

text \<open>
  The events of as many complete iterations of the loop as there are distances in the
  list, from the given \<^verbatim>\<open>angle\<close> and \<^verbatim>\<open>direction\<close>: in each, the servo is set, the
  sensor is triggered, the reading with the distance measured is sent, and the
  coroutine sleeps.
\<close>

fun loop_events :: "nat \<Rightarrow> int \<times> int \<Rightarrow> pyfloat list \<Rightarrow> event list" where
  "loop_events c s [] = []"
| "loop_events c s (d # ds) =
     [ServoAngle (fst s)] @ trigger_events
       @ [Send c (json_dumps (reading (fst s) d)), AsyncSleep (1 / 10)]
       @ loop_events c (adjust s) ds"

text \<open>
  What a run of at most \<open>n\<close> iterations looks like from outside, \<open>ds\<close> being the
  distances of the readings it sent: all its sends but possibly the last succeeded; it
  is still running after \<open>n\<close> complete iterations, or it was left by the exception of
  a send after the servo was set and the sensor triggered once more.
\<close>

definition run_shape :: "env \<Rightarrow> nat \<Rightarrow> nat \<Rightarrow> int \<times> int \<Rightarrow> world \<Rightarrow> outcome \<Rightarrow> world \<Rightarrow> pyfloat list \<Rightarrow> bool" where
  "run_shape env c n s w out w' ds \<longleftrightarrow>
     length ds \<le> n
     \<and> (\<forall>i<length ds. peer env c (sends w c + i) = SendOk)
     \<and> (\<forall>d\<in>set ds. \<exists>x. d = py_round2 x)
     \<and> run_measured env w out ds
     \<and> chip_open w' = chip_open w \<and> servo_open w' = servo_open w
     \<and> (case out of
           Running s' \<Rightarrow> length ds = n \<and> s' = (adjust ^^ n) s
              \<and> events w' = events w @ loop_events c s ds
         | Raised e \<Rightarrow> peer env c (sends w c + length ds) = SendRaises e
              \<and> events w' = events w @ loop_events c s ds
                    @ ServoAngle (fst ((adjust ^^ length ds) s)) # trigger_events
         | Returned \<Rightarrow> False)"

text \<open>The angles assigned to the servo, and the texts sent on a connection, in a trace.\<close>

fun servo_angles :: "event list \<Rightarrow> int list" where
  "servo_angles [] = []"
| "servo_angles (ServoAngle a # es) = a # servo_angles es"
| "servo_angles (_ # es) = servo_angles es"

fun sent_on :: "nat \<Rightarrow> event list \<Rightarrow> json_text list" where
  "sent_on c [] = []"
| "sent_on c (Send c' t # es) = (if c' = c then t # sent_on c es else sent_on c es)"
| "sent_on c (_ # es) = sent_on c es"

text \<open>The value under \<^verbatim>\<open>"angle"\<close> of a reading that was sent.\<close>

fun text_angle :: "json_text \<Rightarrow> int option" where
  "text_angle (Dumps (JObject [(k, JInt a), _])) = (if k = ''angle'' then Some a else None)"
| "text_angle _ = None"

text \<open>The events a run added to those of the world it started in.\<close>

definition since :: "world \<Rightarrow> world \<Rightarrow> event list" where
  "since w w' = drop (length (events w)) (events w')"

text \<open>
  The triangle wave of period 72 between 0 and 180: \<open>triangle i\<close> climbs by \<open>step\<close>
  for \<open>i\<close> from 0 to 36 and descends by \<open>step\<close> from 36 to 72; \<open>heading i\<close> is the
  direction in which it leaves \<open>triangle i\<close>.
\<close>

definition triangle :: "nat \<Rightarrow> int" where
  "triangle i = (if i mod 72 \<le> 36 then step * int (i mod 72) else 360 - step * int (i mod 72))"

definition heading :: "nat \<Rightarrow> int" where
  "heading i = (if i mod 72 < 36 then 1 else - 1)"

text \<open>An echo line on which, after every read, a 1 is read again and a 0 after it.\<close>

definition pulsing :: "env \<Rightarrow> bool" where
  "pulsing env \<longleftrightarrow> (\<forall>m. \<exists>i j. m \<le> i \<and> i < j \<and> echo env i \<and> \<not> echo env j)"

text \<open>
  The events of a run of \<^verbatim>\<open>handler\<close> that sent readings with the distances \<open>ds\<close> and
  stands at \<open>out\<close>: the greeting, the complete iterations, and, when a send raised, the
  servo set and the sensor triggered once more, followed by the parting line when the
  exception was \<^verbatim>\<open>ConnectionClosed\<close>.
\<close>

definition handler_trace :: "nat \<Rightarrow> pyfloat list \<Rightarrow> outcome \<Rightarrow> event list" where
  "handler_trace c ds out =
     Print ''Client connected'' # loop_events c (0, 1) ds
       @ (case out of
            Running s \<Rightarrow> []
          | Raised e \<Rightarrow> ServoAngle (triangle (length ds)) # trigger_events
          | Returned \<Rightarrow>
              ServoAngle (triangle (length ds)) # trigger_events @ [Print ''Client disconnected''])"

text \<open>
  A pulsing echo line and a peer that closes connection 1 at its third send; and an
  event loop that is interrupted from the keyboard.
\<close>

definition env_two :: env where
  "env_two = \<lparr>echo = (\<lambda>k. k mod 4 = 2 \<or> k mod 4 = 3), clock = (\<lambda>k. of_nat k / 1000),
     peer = (\<lambda>c k. if c = 1 \<and> k = 2 then SendRaises ConnectionClosed else SendOk)\<rparr>"



definition interrupted :: "world \<Rightarrow> (exn option \<times> world) option" where
  "interrupted w = Some (Some KeyboardInterrupt, w)"

section \<open>The busy-wait loops\<close>

lemma busy_wait_run:
  "reads w \<le> i \<Longrightarrow> (\<forall>k. reads w \<le> k \<and> k < i \<longrightarrow> echo env k = level) \<Longrightarrow> echo env i \<noteq> level \<Longrightarrow>
   busy_wait env level t w =
     Some (if i = reads w then t else clock env (ticks w + (i - reads w) - 1),
           w\<lparr>reads := Suc i, ticks := ticks w + (i - reads w)\<rparr>)"
proof (induction "i - reads w" arbitrary: w t)
  case 0
  then have "i = reads w" by simp
  with 0 show ?case
    by (subst busy_wait.simps) (simp add: gpio_read_def)
next
  case (Suc d)
  let ?w = "w\<lparr>reads := Suc (reads w), ticks := Suc (ticks w)\<rparr>"
  from Suc.hyps(2) have lt: "reads w < i" by simp
  with Suc.prems have lv: "echo env (reads w) = level" by simp
  have d: "d = i - reads ?w" using Suc.hyps(2) by simp
  have r: "reads ?w \<le> i" using lt by simp
  have a: "\<forall>k. reads ?w \<le> k \<and> k < i \<longrightarrow> echo env k = level" using Suc.prems(2) by simp
  have ih: "busy_wait env level (clock env (ticks w)) ?w =
     Some (if i = reads ?w then clock env (ticks w) else clock env (ticks ?w + (i - reads ?w) - 1),
           ?w\<lparr>reads := Suc i, ticks := ticks ?w + (i - reads ?w)\<rparr>)"
    by (rule Suc.hyps(1)[OF d r a Suc.prems(3)])
  have st: "busy_wait env level t w = busy_wait env level (clock env (ticks w)) ?w"
    by (subst busy_wait.simps) (simp add: gpio_read_def time_time_def lv)
  show ?case
    unfolding st ih using lt by (auto simp: Suc_diff_Suc)
qed

lemma busy_wait_Some_ex:
  assumes "busy_wait env level t w = Some y"
  shows "\<exists>i. reads w \<le> i \<and> echo env i \<noteq> level"
proof (rule busy_wait.raw_induct
    [where P = "\<lambda>env level t w y. \<exists>i. reads w \<le> i \<and> echo env i \<noteq> level", OF _ assms])
  fix bw :: "env \<Rightarrow> bool \<Rightarrow> rat \<Rightarrow> world \<Rightarrow> (rat \<times> world) option"
    and env :: env and level :: bool and t :: rat and w :: world and y :: "rat \<times> world"
  assume ih: "\<And>(env :: env) level t (w :: world) y. bw env level t w = Some y \<Longrightarrow> \<exists>i. reads w \<le> i \<and> echo env i \<noteq> level"
  assume eq: "(case gpio_read env w of
      (v, w) \<Rightarrow> if v = level then case time_time env w of (t, w) \<Rightarrow> bw env level t w
                else Some (t, w)) = Some y"
  show "\<exists>i. reads w \<le> i \<and> echo env i \<noteq> level"
  proof (cases "echo env (reads w) = level")
    case True
    let ?w = "w\<lparr>reads := Suc (reads w), ticks := Suc (ticks w)\<rparr>"
    from True eq have "bw env level (clock env (ticks w)) ?w = Some y"
      by (simp add: gpio_read_def time_time_def)
    then have "\<exists>i. reads ?w \<le> i \<and> echo env i \<noteq> level"
      by (rule ih)
    then obtain i where i: "reads ?w \<le> i" "echo env i \<noteq> level"
      by (elim exE conjE)
    from i(1) have "reads w \<le> i" by simp
    with i(2) show ?thesis by (intro exI[of _ i] conjI)
  next
    case False
    then show ?thesis by (intro exI[of _ "reads w"] conjI le_refl)
  qed
qed

lemma busy_wait_never:
  assumes "\<forall>i. reads w \<le> i \<longrightarrow> echo env i = level"
  shows "busy_wait env level t w = None"
proof (cases "busy_wait env level t w")
  case None
  then show ?thesis .
next
  case (Some y)
  from busy_wait_Some_ex[OF Some] obtain i where "reads w \<le> i" "echo env i \<noteq> level"
    by (elim exE conjE)
  with assms show ?thesis by simp
qed


lemma trigger_fields [simp]:
  "reads (trigger w) = reads w" "ticks (trigger w) = ticks w" "sends (trigger w) = sends w"
  "chip_open (trigger w) = chip_open w" "servo_open (trigger w) = servo_open w"
  "events (trigger w) = events w @
     [GpioWrite TRIG False, Sleep (5 / 100), GpioWrite TRIG True, Sleep (1 / 100000),
      GpioWrite TRIG False]"
  by (simp_all add: trigger_def gpio_write_def time_sleep_def emit_def)

lemma get_distance_run:
  assumes ri: "reads w \<le> i" and ij: "i < j"
    and low: "\<forall>k. reads w \<le> k \<and> k < i \<longrightarrow> \<not> echo env k"
    and high: "\<forall>k. i \<le> k \<and> k < j \<longrightarrow> echo env k"
    and fall: "\<not> echo env j"
  shows "get_distance env w =
     Some (measured env w i j, (trigger w)\<lparr>reads := Suc j, ticks := Suc (ticks w + (j - reads w))\<rparr>)"
proof -
  let ?w1 = "(trigger w)\<lparr>ticks := Suc (ticks w)\<rparr>"
  have hi: "echo env i" using high ij by simp
  have r1: "busy_wait env False (clock env (ticks w)) ?w1 =
      Some (if i = reads ?w1 then clock env (ticks w) else clock env (ticks ?w1 + (i - reads ?w1) - 1),
            ?w1\<lparr>reads := Suc i, ticks := ticks ?w1 + (i - reads ?w1)\<rparr>)"
    by (rule busy_wait_run) (use ri low hi in simp_all)
  have ps: "(if i = reads ?w1 then clock env (ticks w) else clock env (ticks ?w1 + (i - reads ?w1) - 1))
      = clock env (ticks w + (i - reads w))"
    using ri by (cases "i = reads w") simp_all
  let ?w2 = "(trigger w)\<lparr>reads := Suc i, ticks := Suc (ticks w + (i - reads w))\<rparr>"
  have w2: "?w1\<lparr>reads := Suc i, ticks := ticks ?w1 + (i - reads ?w1)\<rparr> = ?w2"
    by simp
  let ?w3 = "?w2\<lparr>ticks := Suc (Suc (ticks w + (i - reads w)))\<rparr>"
  have r2: "busy_wait env True (clock env (Suc (ticks w + (i - reads w)))) ?w3 =
      Some (if j = reads ?w3 then clock env (Suc (ticks w + (i - reads w)))
            else clock env (ticks ?w3 + (j - reads ?w3) - 1),
            ?w3\<lparr>reads := Suc j, ticks := ticks ?w3 + (j - reads ?w3)\<rparr>)"
    by (rule busy_wait_run) (use ij high fall in simp_all)
  have pe: "(if j = reads ?w3 then clock env (Suc (ticks w + (i - reads w)))
            else clock env (ticks ?w3 + (j - reads ?w3) - 1)) = clock env (ticks w + (j - reads w))"
  proof (cases "j = Suc i")
    case True
    then show ?thesis using ri by (simp add: Suc_diff_le)
  next
    case False
    with ij have lt: "Suc i < j" by simp
    have rd: "reads ?w3 = Suc i" and tk: "ticks ?w3 = Suc (Suc (ticks w + (i - reads w)))"
      by simp_all
    have idx: "ticks ?w3 + (j - reads ?w3) - 1 = ticks w + (j - reads w)"
      unfolding rd tk using ri lt by arith
    have ne: "j \<noteq> reads ?w3" unfolding rd using False .
    show ?thesis by (simp only: ne idx if_False)
  qed
  have w4: "?w3\<lparr>reads := Suc j, ticks := ticks ?w3 + (j - reads ?w3)\<rparr>
      = (trigger w)\<lparr>reads := Suc j, ticks := Suc (ticks w + (j - reads w))\<rparr>"
    using ri ij by simp
  have r1': "busy_wait env False (clock env (ticks w)) (trigger w\<lparr>ticks := Suc (ticks w)\<rparr>) =
      Some (clock env (ticks w + (i - reads w)),
            trigger w\<lparr>reads := Suc i, ticks := Suc (ticks w + (i - reads w))\<rparr>)"
    using r1 unfolding ps w2 .
  have r2': "busy_wait env True (clock env (Suc (ticks w + (i - reads w))))
        (trigger w\<lparr>reads := Suc i, ticks := Suc (Suc (ticks w + (i - reads w)))\<rparr>) =
      Some (clock env (ticks w + (j - reads w)),
            trigger w\<lparr>reads := Suc j, ticks := Suc (ticks w + (j - reads w))\<rparr>)"
    using r2 unfolding pe w4 by simp
  show ?thesis
    by (simp add: get_distance_def Let_def time_time_def r1' r2' measured_def)
qed


lemma get_distance_no_rise:
  assumes "\<forall>k. reads w \<le> k \<longrightarrow> \<not> echo env k"
  shows "get_distance env w = None"
proof -
  have "busy_wait env False (clock env (ticks w)) (trigger w\<lparr>ticks := Suc (ticks w)\<rparr>) = None"
    by (rule busy_wait_never) (use assms in simp)
  then show ?thesis
    by (simp add: get_distance_def Let_def time_time_def)
qed

lemma get_distance_no_fall:
  assumes ri: "reads w \<le> i"
    and low: "\<forall>k. reads w \<le> k \<and> k < i \<longrightarrow> \<not> echo env k"
    and high: "\<forall>k. i \<le> k \<longrightarrow> echo env k"
  shows "get_distance env w = None"
proof -
  let ?w1 = "trigger w\<lparr>ticks := Suc (ticks w)\<rparr>"
  have hi: "echo env i" using high by simp
  have "busy_wait env False (clock env (ticks w)) ?w1 =
      Some (if i = reads ?w1 then clock env (ticks w) else clock env (ticks ?w1 + (i - reads ?w1) - 1),
            ?w1\<lparr>reads := Suc i, ticks := ticks ?w1 + (i - reads ?w1)\<rparr>)"
    by (rule busy_wait_run) (use ri low hi in simp_all)
  then obtain t where r1: "busy_wait env False (clock env (ticks w)) ?w1 =
      Some (t, trigger w\<lparr>reads := Suc i, ticks := Suc (ticks w + (i - reads w))\<rparr>)"
    by simp
  have r2: "busy_wait env True (clock env (Suc (ticks w + (i - reads w))))
        (trigger w\<lparr>reads := Suc i, ticks := Suc (Suc (ticks w + (i - reads w)))\<rparr>) = None"
    by (rule busy_wait_never) (use high in simp)
  show ?thesis
    by (simp add: get_distance_def Let_def time_time_def r1 r2)
qed

lemma get_distance_Some_D:
  assumes "get_distance env w = Some (r, w')"
  shows "\<exists>i j. reads w \<le> i \<and> i < j
           \<and> (\<forall>k. reads w \<le> k \<and> k < i \<longrightarrow> \<not> echo env k)
           \<and> (\<forall>k. i \<le> k \<and> k < j \<longrightarrow> echo env k) \<and> \<not> echo env j
           \<and> r = measured env w i j
           \<and> w' = (trigger w)\<lparr>reads := Suc j, ticks := Suc (ticks w + (j - reads w))\<rparr>"
proof -
  have ex1: "\<exists>k. reads w \<le> k \<and> echo env k"
  proof (rule ccontr)
    assume "\<not> ?thesis"
    then have "\<forall>k. reads w \<le> k \<longrightarrow> \<not> echo env k" by blast
    from get_distance_no_rise[OF this] assms show False by simp
  qed
  define i where "i = (LEAST k. reads w \<le> k \<and> echo env k)"
  have i: "reads w \<le> i \<and> echo env i"
    unfolding i_def using ex1 by (rule LeastI_ex)
  have low: "\<forall>k. reads w \<le> k \<and> k < i \<longrightarrow> \<not> echo env k"
    unfolding i_def using not_less_Least by blast
  have ex2: "\<exists>k. i < k \<and> \<not> echo env k"
  proof (rule ccontr)
    assume "\<not> ?thesis"
    then have "\<forall>k. i \<le> k \<longrightarrow> echo env k"
      using i by (metis le_neq_implies_less)
    from get_distance_no_fall[OF conjunct1[OF i] low this] assms show False by simp
  qed
  define j where "j = (LEAST k. i < k \<and> \<not> echo env k)"
  have j: "i < j \<and> \<not> echo env j"
    unfolding j_def using ex2 by (rule LeastI_ex)
  have high: "\<forall>k. i \<le> k \<and> k < j \<longrightarrow> echo env k"
  proof (intro allI impI)
    fix k assume k: "i \<le> k \<and> k < j"
    show "echo env k"
    proof (cases "k = i")
      case True
      with i show ?thesis by simp
    next
      case False
      with k have "i < k" by simp
      moreover from k have "k < (LEAST k. i < k \<and> \<not> echo env k)" by (simp add: j_def)
      ultimately show ?thesis using not_less_Least by blast
    qed
  qed
  from get_distance_run[OF conjunct1[OF i] conjunct1[OF j] low high conjunct2[OF j]] assms
  have "r = measured env w i j"
    and "w' = (trigger w)\<lparr>reads := Suc j, ticks := Suc (ticks w + (j - reads w))\<rparr>"
    by simp_all
  with i j low high show ?thesis by blast
qed

lemma first_pulse:
  assumes "reads w \<le> i" "i < j" "echo env i" "\<not> echo env j"
  shows "\<exists>i j. reads w \<le> i \<and> i < j
           \<and> (\<forall>k. reads w \<le> k \<and> k < i \<longrightarrow> \<not> echo env k)
           \<and> (\<forall>k. i \<le> k \<and> k < j \<longrightarrow> echo env k) \<and> \<not> echo env j"
proof -
  define a where "a = (LEAST k. reads w \<le> k \<and> echo env k)"
  have a: "reads w \<le> a \<and> echo env a"
    unfolding a_def by (rule LeastI_ex) (use assms(1,3) in blast)
  have ai: "a \<le> i"
    unfolding a_def by (rule Least_le) (use assms(1,3) in simp)
  have low: "\<forall>k. reads w \<le> k \<and> k < a \<longrightarrow> \<not> echo env k"
    unfolding a_def using not_less_Least by blast
  define b where "b = (LEAST k. a < k \<and> \<not> echo env k)"
  have aj: "a < j \<and> \<not> echo env j" using ai assms(2,4) by simp
  have b: "a < b \<and> \<not> echo env b"
    unfolding b_def by (rule LeastI_ex) (use aj in blast)
  have high: "\<forall>k. a \<le> k \<and> k < b \<longrightarrow> echo env k"
  proof (intro allI impI)
    fix k assume k: "a \<le> k \<and> k < b"
    show "echo env k"
    proof (cases "k = a")
      case True
      with a show ?thesis by simp
    next
      case False
      with k have "a < k" by simp
      moreover from k have "k < (LEAST k. a < k \<and> \<not> echo env k)" by (simp add: b_def)
      ultimately show ?thesis using not_less_Least by blast
    qed
  qed
  from a b low high show ?thesis by blast
qed

text \<open>
  C7. \<^verbatim>\<open>get_distance\<close> does not return when, from the read it starts at, the echo line
  never reads 1, or reads 1 at some read and at every read after it; it returns when
  some read of the echo line returns 1 and a later one 0.
\<close>

theorem get_distance_termination:
  "((\<forall>k. reads w \<le> k \<longrightarrow> \<not> echo env k) \<longrightarrow> get_distance env w = None)
   \<and> ((\<exists>i. reads w \<le> i \<and> (\<forall>k. reads w \<le> k \<and> k < i \<longrightarrow> \<not> echo env k) \<and> (\<forall>k. i \<le> k \<longrightarrow> echo env k))
        \<longrightarrow> get_distance env w = None)
   \<and> ((\<exists>i j. reads w \<le> i \<and> i < j \<and> echo env i \<and> \<not> echo env j)
        \<longrightarrow> (\<exists>r w'. get_distance env w = Some (r, w')))"
proof (intro conjI impI)
  assume "\<forall>k. reads w \<le> k \<longrightarrow> \<not> echo env k"
  then show "get_distance env w = None" by (rule get_distance_no_rise)
next
  assume "\<exists>i. reads w \<le> i \<and> (\<forall>k. reads w \<le> k \<and> k < i \<longrightarrow> \<not> echo env k) \<and> (\<forall>k. i \<le> k \<longrightarrow> echo env k)"
  then obtain i where "reads w \<le> i" "\<forall>k. reads w \<le> k \<and> k < i \<longrightarrow> \<not> echo env k" "\<forall>k. i \<le> k \<longrightarrow> echo env k"
    by (elim exE conjE)
  then show "get_distance env w = None" by (rule get_distance_no_fall)
next
  assume "\<exists>i j. reads w \<le> i \<and> i < j \<and> echo env i \<and> \<not> echo env j"
  then obtain i j where "reads w \<le> i" "i < j" "echo env i" "\<not> echo env j"
    by (elim exE conjE)
  from first_pulse[OF this] obtain a b where "reads w \<le> a" "a < b"
    "\<forall>k. reads w \<le> k \<and> k < a \<longrightarrow> \<not> echo env k" "\<forall>k. a \<le> k \<and> k < b \<longrightarrow> echo env k" "\<not> echo env b"
    by (elim exE conjE)
  from get_distance_run[OF this] show "\<exists>r w'. get_distance env w = Some (r, w')"
    by (intro exI)
qed

theorem get_distance_termination_witness:
  "get_distance env_silent world0 = None \<and> get_distance env_stuck world0 = None
   \<and> (\<exists>r w'. get_distance env_pulse world0 = Some (r, w'))"
proof -
  have a: "\<forall>k. reads world0 \<le> k \<longrightarrow> \<not> echo env_silent k"
    by (simp add: env_silent_def)
  have b: "reads world0 \<le> 2 \<and> (\<forall>k. reads world0 \<le> k \<and> k < 2 \<longrightarrow> \<not> echo env_stuck k) \<and> (\<forall>k. 2 \<le> k \<longrightarrow> echo env_stuck k)"
    by (simp add: env_stuck_def world0_def)
  have c: "reads world0 \<le> 2 \<and> (2::nat) < 4 \<and> echo env_pulse 2 \<and> \<not> echo env_pulse 4"
    by (simp add: env_pulse_def world0_def)
  from get_distance_termination[of world0 env_silent] a
  have 1: "get_distance env_silent world0 = None" by blast
  from get_distance_termination[of world0 env_stuck] b
  have 2: "get_distance env_stuck world0 = None" by blast
  from get_distance_termination[of world0 env_pulse] c
  have 3: "\<exists>r w'. get_distance env_pulse world0 = Some (r, w')" by blast
  from 1 2 3 show ?thesis by (intro conjI)
qed

section \<open>Float arithmetic\<close>

lemma round_half_even_nonneg: "0 \<le> x \<Longrightarrow> 0 \<le> round_half_even x"
proof -
  assume "0 \<le> x"
  then have "0 \<le> \<lfloor>x\<rfloor>" by simp
  then show ?thesis by (simp add: round_half_even_def Let_def)
qed

lemma pow2_pos: "0 < pow2 k"
  by (simp add: pow2_def)

lemma to_double_nonneg: "0 \<le> x \<Longrightarrow> fge0 (to_double x)"
proof -
  assume x: "0 \<le> x"
  have "0 \<le> round_half_even (x / pow2 k)" for k
    by (rule round_half_even_nonneg) (use x pow2_pos[of k] in simp)
  then have "0 \<le> rat_of_int (round_half_even (x / pow2 k)) * pow2 k" for k
    using pow2_pos[of k] by simp
  with x show ?thesis
    by (simp add: to_double_def Let_def)
qed

lemma fmul_nonneg: "fge0 d \<Longrightarrow> 0 < c \<Longrightarrow> fge0 (fmul d c)"
  by (cases d) (simp_all add: to_double_nonneg)

lemma py_round2_nonneg: "fge0 d \<Longrightarrow> fge0 (py_round2 d)"
proof (cases d)
  case (Finite x)
  assume "fge0 d"
  with Finite have "0 \<le> x * 100" by simp
  then have "0 \<le> round_half_even (x * 100)" by (rule round_half_even_nonneg)
  then have "0 \<le> rat_of_int (round_half_even (x * 100)) / 100" by simp
  then show ?thesis using Finite by (simp add: to_double_nonneg)
qed simp_all













text \<open>
  The floats written \<^verbatim>\<open>0.001\<close> and \<^verbatim>\<open>17.15\<close>, and \<^verbatim>\<open>round(0.001 * 17150, 2)\<close>: the
  product is the float above \<^verbatim>\<open>17.15\<close>, and rounding brings it back.
\<close>

lemma double_1ms: "to_double (1 / 1000) = Finite (1152921504606847 / 1152921504606846976)"
  by code_simp

lemma double_1ms_fix: "to_double (1152921504606847 / 1152921504606846976) = Finite (1152921504606847 / 1152921504606846976)"
  by code_simp

lemma distance_1ms: "py_round2 (fmul (to_double (1 / 1000)) 17150) = to_double (343 / 20)"
  by code_simp

lemma double_1715: "to_double (343 / 20) = Finite (4827295850587750 / 281474976710656)"
  by code_simp

section \<open>The distance returned\<close>

text \<open>
  C3. Whenever \<^verbatim>\<open>get_distance\<close> returns, the value is
  \<^verbatim>\<open>round(pulse_duration * 17150, 2)\<close>, where \<^verbatim>\<open>pulse_duration\<close> is the float difference
  of the clock values taken just before the first read of the echo line that returned 1
  and just before the first read after it that returned 0; when that duration is the
  float \<^verbatim>\<open>0.001\<close>, the value returned is the float \<^verbatim>\<open>17.15\<close>.
\<close>

theorem get_distance_conversion:
  assumes "get_distance env w = Some (r, w')"
  shows "\<exists>i j. reads w \<le> i \<and> i < j
           \<and> (\<forall>k. reads w \<le> k \<and> k < i \<longrightarrow> \<not> echo env k)
           \<and> (\<forall>k. i \<le> k \<and> k < j \<longrightarrow> echo env k) \<and> \<not> echo env j
           \<and> (let pulse_start = clock env (ticks w + (i - reads w));
                    pulse_end = clock env (ticks w + (j - reads w));
                    pulse_duration = fsub pulse_end pulse_start
                in r = py_round2 (fmul pulse_duration 17150)
                   \<and> (pulse_duration = to_double (1 / 1000) \<longrightarrow> r = to_double (343 / 20)))"
proof -
  from get_distance_Some_D[OF assms] obtain i j where ij: "reads w \<le> i" "i < j"
    "\<forall>k. reads w \<le> k \<and> k < i \<longrightarrow> \<not> echo env k"
    "\<forall>k. i \<le> k \<and> k < j \<longrightarrow> echo env k" "\<not> echo env j"
    and r: "r = measured env w i j"
    by (elim exE conjE)
  have "let pulse_start = clock env (ticks w + (i - reads w));
            pulse_end = clock env (ticks w + (j - reads w));
            pulse_duration = fsub pulse_end pulse_start
        in r = py_round2 (fmul pulse_duration 17150)
           \<and> (pulse_duration = to_double (1 / 1000) \<longrightarrow> r = to_double (343 / 20))"
    unfolding Let_def r measured_def using distance_1ms by simp
  with ij show ?thesis by (intro exI[of _ i] exI[of _ j] conjI)
qed

theorem get_distance_conversion_witness:
  "\<exists>w'. get_distance env_1ms world0 = Some (to_double (343 / 20), w')"
proof -
  have run: "get_distance env_1ms world0 =
      Some (measured env_1ms world0 1 2,
            (trigger world0)\<lparr>reads := Suc 2, ticks := Suc (ticks world0 + (2 - reads world0))\<rparr>)"
    by (rule get_distance_run) (simp_all add: env_1ms_def world0_def)
  from get_distance_conversion[OF run] obtain i j where ij: "reads world0 \<le> i" "i < j"
    "\<forall>k. i \<le> k \<and> k < j \<longrightarrow> echo env_1ms k"
    and conv: "let pulse_start = clock env_1ms (ticks world0 + (i - reads world0));
            pulse_end = clock env_1ms (ticks world0 + (j - reads world0));
            pulse_duration = fsub pulse_end pulse_start
        in measured env_1ms world0 1 2 = py_round2 (fmul pulse_duration 17150)
           \<and> (pulse_duration = to_double (1 / 1000) \<longrightarrow> measured env_1ms world0 1 2 = to_double (343 / 20))"
    by (elim exE conjE)
  from ij(2,3) have "echo env_1ms i" by simp
  then have i: "i = 1" by (simp add: env_1ms_def)
  have j: "j = 2"
  proof (rule ccontr)
    assume "j \<noteq> 2"
    with ij(2) i have "i \<le> 2 \<and> 2 < j" by simp
    with ij(3) have "echo env_1ms 2" by blast
    then show False by (simp add: env_1ms_def)
  qed
  have d: "fsub (clock env_1ms (ticks world0 + (j - reads world0))) (clock env_1ms (ticks world0 + (i - reads world0)))
      = to_double (1 / 1000)"
    unfolding i j by (simp add: env_1ms_def world0_def fsub_def double_1ms double_1ms_fix)
  from conv[unfolded Let_def] d have "measured env_1ms world0 1 2 = to_double (343 / 20)"
    by blast
  with run show ?thesis by simp
qed

text \<open>
  C10. When the clock values taken during a call of \<^verbatim>\<open>get_distance\<close> never decrease,
  \<^verbatim>\<open>pulse_end - pulse_start\<close> is not negative and neither is the value returned.
\<close>

theorem get_distance_nonneg:
  assumes "get_distance env w = Some (r, w')"
    and "\<forall>a b. ticks w \<le> a \<and> a \<le> b \<and> b < ticks w' \<longrightarrow> clock env a \<le> clock env b"
  shows "\<exists>pulse_start pulse_end. pulse_start \<le> pulse_end
           \<and> fge0 (fsub pulse_end pulse_start)
           \<and> r = py_round2 (fmul (fsub pulse_end pulse_start) 17150) \<and> fge0 r"
proof -
  from get_distance_Some_D[OF assms(1)] obtain i j where ij: "reads w \<le> i" "i < j"
    and r: "r = measured env w i j"
    and w': "w' = (trigger w)\<lparr>reads := Suc j, ticks := Suc (ticks w + (j - reads w))\<rparr>"
    by (elim exE conjE)
  let ?a = "ticks w + (i - reads w)" and ?b = "ticks w + (j - reads w)"
  have "ticks w \<le> ?a \<and> ?a \<le> ?b \<and> ?b < ticks w'"
    using ij by (auto simp: w')
  with assms(2) have le: "clock env ?a \<le> clock env ?b" by blast
  then have d: "fge0 (fsub (clock env ?b) (clock env ?a))"
    by (simp add: fsub_def to_double_nonneg)
  then have "fge0 r"
    unfolding r measured_def by (intro py_round2_nonneg fmul_nonneg) simp_all
  with le d r show ?thesis
    unfolding measured_def by (intro exI[of _ "clock env ?a"] exI[of _ "clock env ?b"] conjI)
qed

theorem get_distance_nonneg_witness:
  "\<exists>r w'. get_distance env_pulse world0 = Some (r, w') \<and> fge0 r"
proof -
  have run: "get_distance env_pulse world0 =
      Some (measured env_pulse world0 2 4,
            (trigger world0)\<lparr>reads := Suc 4, ticks := Suc (ticks world0 + (4 - reads world0))\<rparr>)"
    by (rule get_distance_run) (auto simp: env_pulse_def world0_def)
  have mono: "\<forall>a b. ticks world0 \<le> a \<and> a \<le> b
      \<and> b < ticks ((trigger world0)\<lparr>reads := Suc 4, ticks := Suc (ticks world0 + (4 - reads world0))\<rparr>)
      \<longrightarrow> clock env_pulse a \<le> clock env_pulse b"
    by (simp add: env_pulse_def)
  from get_distance_nonneg[OF run mono] have "fge0 (measured env_pulse world0 2 4)"
    by (elim exE conjE)
  with run show ?thesis by (intro exI conjI)
qed

section \<open>Successive measurements\<close>


lemma get_distance_counters:
  assumes gd: "get_distance env w = Some (d, w1)"
    and eq: "reads w2 = reads w" "ticks w2 = ticks w"
  shows "\<exists>w3. get_distance env w2 = Some (d, w3) \<and> reads w3 = reads w1 \<and> ticks w3 = ticks w1"
proof -
  from get_distance_Some_D[OF gd] obtain i j where ij: "reads w \<le> i" "i < j"
    "\<forall>k. reads w \<le> k \<and> k < i \<longrightarrow> \<not> echo env k"
    "\<forall>k. i \<le> k \<and> k < j \<longrightarrow> echo env k" "\<not> echo env j"
    and d: "d = measured env w i j"
    and w1: "w1 = (trigger w)\<lparr>reads := Suc j, ticks := Suc (ticks w + (j - reads w))\<rparr>"
    by (elim exE conjE)
  from ij eq have "reads w2 \<le> i" "i < j"
    "\<forall>k. reads w2 \<le> k \<and> k < i \<longrightarrow> \<not> echo env k"
    "\<forall>k. i \<le> k \<and> k < j \<longrightarrow> echo env k" "\<not> echo env j"
    by simp_all
  from get_distance_run[OF this]
  have "get_distance env w2 = Some (measured env w2 i j,
      (trigger w2)\<lparr>reads := Suc j, ticks := Suc (ticks w2 + (j - reads w2))\<rparr>)" .
  moreover have "measured env w2 i j = d" by (simp add: d measured_def eq)
  ultimately show ?thesis by (simp add: w1 eq)
qed

lemma get_distance_counters_None:
  assumes "get_distance env w = None" and "reads w2 = reads w" "ticks w2 = ticks w"
  shows "get_distance env w2 = None"
proof (cases "get_distance env w2")
  case None
  then show ?thesis .
next
  case (Some p)
  obtain d w3 where "p = (d, w3)" by (cases p)
  with Some have "get_distance env w2 = Some (d, w3)" by simp
  from get_distance_counters[OF this, of w] assms show ?thesis by simp
qed

lemma measurements_counters:
  "reads w2 = reads w \<Longrightarrow> ticks w2 = ticks w \<Longrightarrow> measurements k env w2 = measurements k env w"
proof (induction k arbitrary: w w2)
  case 0
  show ?case by simp
next
  case (Suc k)
  show ?case
  proof (cases "get_distance env w")
    case None
    from get_distance_counters_None[OF None Suc.prems] None show ?thesis by simp
  next
    case (Some p)
    obtain d w1 where p: "p = (d, w1)" by (cases p)
    from get_distance_counters[OF Some[unfolded p] Suc.prems] obtain w3
      where w3: "get_distance env w2 = Some (d, w3)" "reads w3 = reads w1" "ticks w3 = ticks w1"
      by (elim exE conjE)
    from Suc.IH[OF w3(2,3)] Some p w3(1) show ?thesis by simp
  qed
qed

lemma measurements_Suc:
  assumes "get_distance env w0 = Some (d, w1)" and "reads w0 = reads w" "ticks w0 = ticks w"
    and "reads w2 = reads w1" "ticks w2 = ticks w1"
  shows "measurements (Suc k) env w = map_option ((#) d) (measurements k env w2)"
proof -
  from get_distance_counters[OF assms(1), of w] assms(2,3) obtain w3
    where w3: "get_distance env w = Some (d, w3)" "reads w3 = reads w1" "ticks w3 = ticks w1"
    by auto
  have "measurements k env w3 = measurements k env w2"
    by (rule measurements_counters) (simp_all add: w3 assms)
  with w3(1) show ?thesis by simp
qed


lemma measurements_length: "measurements k env w = Some ds \<Longrightarrow> length ds = k"
  by (induction k arbitrary: w ds) (auto split: option.splits)

section \<open>The sweep loop\<close>

lemma get_distance_effect:
  assumes "get_distance env w = Some (r, w')"
  shows "events w' = events w @ trigger_events \<and> sends w' = sends w
         \<and> chip_open w' = chip_open w \<and> servo_open w' = servo_open w
         \<and> (\<exists>x. r = py_round2 x)"
proof -
  from get_distance_Some_D[OF assms] obtain i j where r: "r = measured env w i j"
    and w': "w' = (trigger w)\<lparr>reads := Suc j, ticks := Suc (ticks w + (j - reads w))\<rparr>"
    by (elim exE conjE)
  from r have "\<exists>x. r = py_round2 x" unfolding measured_def by (intro exI)
  then show ?thesis by (simp add: w' trigger_events_def)
qed

lemma sweep_loop_Suc_cases:
  assumes "sweep_loop (Suc n) env c (a, d) w = Some (out, w')"
  obtains (raised) r w1 e where "get_distance env (servo_set_angle a w) = Some (r, w1)"
      "peer env c (sends w c) = SendRaises e" "out = Raised e"
      "w' = w1\<lparr>sends := (sends w1)(c := Suc (sends w1 c))\<rparr>"
  | (sent) r w1 where "get_distance env (servo_set_angle a w) = Some (r, w1)"
      "peer env c (sends w c) = SendOk"
      "sweep_loop n env c (adjust (a, d))
         (asyncio_sleep (1 / 10) (emit (Send c (json_dumps (reading a r)))
            (w1\<lparr>sends := (sends w1)(c := Suc (sends w1 c))\<rparr>))) = Some (out, w')"
proof (cases "get_distance env (servo_set_angle a w)")
  case None
  with assms show ?thesis by simp
next
  case (Some p)
  obtain r w1 where p: "p = (r, w1)" by (cases p)
  note gd = Some[unfolded p]
  from get_distance_effect[OF gd] have s: "sends w1 = sends (servo_set_angle a w)"
    by simp
  then have s': "sends w1 c = sends w c" by (simp add: servo_set_angle_def emit_def)
  show ?thesis
  proof (cases "peer env c (sends w c)")
    case SendOk
    with assms Some p s' have "sweep_loop n env c (adjust (a, d))
         (asyncio_sleep (1 / 10) (emit (Send c (json_dumps (reading a r)))
            (w1\<lparr>sends := (sends w1)(c := Suc (sends w1 c))\<rparr>))) = Some (out, w')"
      by (simp add: websocket_send_def reading_def Let_def)
    with gd SendOk show ?thesis by (intro sent)
  next
    case (SendRaises e)
    with assms Some p s' have "out = Raised e" "w' = w1\<lparr>sends := (sends w1)(c := Suc (sends w1 c))\<rparr>"
      by (simp_all add: websocket_send_def Let_def)
    with gd SendRaises show ?thesis by (intro raised)
  qed
qed

lemma sweep_loop_trace:
  "sweep_loop n env c s w = Some (out, w') \<Longrightarrow> \<exists>ds. run_shape env c n s w out w' ds"
proof (induction n arbitrary: s w)
  case 0
  obtain a d where s: "s = (a, d)" by (cases s)
  from 0 have "out = Running s" "w' = w" by (simp_all add: s)
  then have "run_shape env c 0 s w out w' []" by (simp add: run_shape_def run_measured_def)
  then show ?case ..
next
  case (Suc n)
  obtain a d where s: "s = (a, d)" by (cases s)
  from Suc.prems[unfolded s] show ?case
  proof (cases rule: sweep_loop_Suc_cases)
    case (raised r w1 e)
    from get_distance_effect[OF raised(1)]
    have "events w1 = events w @ ServoAngle a # trigger_events"
      "chip_open w1 = chip_open w" "servo_open w1 = servo_open w"
      by (simp_all add: servo_set_angle_def emit_def)
    moreover have "measurements (Suc 0) env w = map_option ((#) r) (measurements 0 env w1)"
      by (rule measurements_Suc[OF raised(1)]) (simp_all add: servo_set_angle_def emit_def)
    ultimately have "run_shape env c (Suc n) s w out w' []"
      using raised by (simp add: run_shape_def run_measured_def s)
    then show ?thesis ..
  next
    case (sent r w1)
    let ?w2 = "asyncio_sleep (1 / 10) (emit (Send c (json_dumps (reading a r)))
            (w1\<lparr>sends := (sends w1)(c := Suc (sends w1 c))\<rparr>))"
    from get_distance_effect[OF sent(1)]
    have w1: "events w1 = events w @ ServoAngle a # trigger_events"
      "chip_open w1 = chip_open w" "servo_open w1 = servo_open w" "sends w1 c = sends w c"
      and r: "\<exists>x. r = py_round2 x"
      by (simp_all add: servo_set_angle_def emit_def)
    have w2: "events ?w2 = events w @ ServoAngle a # trigger_events
          @ [Send c (json_dumps (reading a r)), AsyncSleep (1 / 10)]"
      "chip_open ?w2 = chip_open w" "servo_open ?w2 = servo_open w"
      "sends ?w2 c = Suc (sends w c)"
      using w1 by (simp_all add: asyncio_sleep_def emit_def)
    from Suc.IH[OF sent(3)] obtain ds where ds: "run_shape env c n (adjust (a, d)) ?w2 out w' ds" ..
    have pw: "(adjust ^^ k) (adjust (a, d)) = (adjust ^^ Suc k) (a, d)" for k
      by (simp add: funpow_swap1)
    have ok: "\<forall>i<length (r # ds). peer env c (sends w c + i) = SendOk"
    proof (intro allI impI)
      fix i assume i: "i < length (r # ds)"
      show "peer env c (sends w c + i) = SendOk"
      proof (cases i)
        case 0
        with sent(2) show ?thesis by simp
      next
        case (Suc i')
        with i have "i' < length ds" by simp
        with ds have "peer env c (sends ?w2 c + i') = SendOk"
          unfolding run_shape_def by blast
        then show ?thesis unfolding w2(4) Suc by simp
      qed
    qed
    have rd: "\<forall>x\<in>set (r # ds). \<exists>y. x = py_round2 y"
      using r ds unfolding run_shape_def by simp
    have ms: "measurements (Suc k) env w = map_option ((#) r) (measurements k env ?w2)" for k
      by (rule measurements_Suc[OF sent(1)])
        (simp_all add: servo_set_angle_def asyncio_sleep_def emit_def)
    from ds have "run_measured env ?w2 out ds" unfolding run_shape_def by blast
    then have rm: "run_measured env w out (r # ds)"
      unfolding run_measured_def
      by (cases out) (auto simp: ms simp del: measurements.simps)
    have "run_shape env c (Suc n) s w out w' (r # ds)"
    proof (cases out)
      case (Running s')
      with ds have "length ds = n" "s' = (adjust ^^ n) (adjust (a, d))"
        "events w' = events ?w2 @ loop_events c (adjust (a, d)) ds"
        "chip_open w' = chip_open ?w2" "servo_open w' = servo_open ?w2"
        unfolding run_shape_def by simp_all
      with ok rd rm Running show ?thesis
        unfolding run_shape_def s w2 pw by simp
    next
      case Returned
      with ds show ?thesis unfolding run_shape_def by simp
    next
      case (Raised e)
      with ds have "length ds \<le> n" "peer env c (sends ?w2 c + length ds) = SendRaises e"
        "events w' = events ?w2 @ loop_events c (adjust (a, d)) ds
            @ ServoAngle (fst ((adjust ^^ length ds) (adjust (a, d)))) # trigger_events"
        "chip_open w' = chip_open ?w2" "servo_open w' = servo_open ?w2"
        unfolding run_shape_def by simp_all
      with ok rd rm Raised show ?thesis
        unfolding run_shape_def s w2 pw by simp
    qed
    then show ?thesis ..
  qed
qed


lemma servo_angles_append: "servo_angles (xs @ ys) = servo_angles xs @ servo_angles ys"
  by (induction xs rule: servo_angles.induct) simp_all

lemma sent_on_append: "sent_on c (xs @ ys) = sent_on c xs @ sent_on c ys"
  by (induction c xs rule: sent_on.induct) simp_all

lemma trigger_events_quiet [simp]:
  "servo_angles trigger_events = []" "sent_on c trigger_events = []"
  by (simp_all add: trigger_events_def)

lemma servo_angles_loop_events:
  "servo_angles (loop_events c s ds) = map (\<lambda>i. fst ((adjust ^^ i) s)) [0..<length ds]"
proof (induction ds arbitrary: s)
  case Nil
  show ?case by simp
next
  case (Cons d ds)
  have "map (\<lambda>i. fst ((adjust ^^ i) s)) [0..<length (d # ds)]
      = fst s # map (\<lambda>i. fst ((adjust ^^ i) (adjust s))) [0..<length ds]"
    by (simp add: upt_rec[of 0] map_Suc_upt[symmetric] funpow_swap1 del: upt_Suc)
  then show ?case
    by (simp add: servo_angles_append Cons.IH)
qed

lemma sent_on_loop_events:
  "sent_on c (loop_events c s ds)
     = map (\<lambda>i. json_dumps (reading (fst ((adjust ^^ i) s)) (ds ! i))) [0..<length ds]"
proof (induction ds arbitrary: s)
  case Nil
  show ?case by simp
next
  case (Cons d ds)
  have "map (\<lambda>i. json_dumps (reading (fst ((adjust ^^ i) s)) ((d # ds) ! i))) [0..<length (d # ds)]
      = json_dumps (reading (fst s) d)
        # map (\<lambda>i. json_dumps (reading (fst ((adjust ^^ i) (adjust s))) (ds ! i))) [0..<length ds]"
    by (simp add: upt_rec[of 0] map_Suc_upt[symmetric] funpow_swap1 del: upt_Suc)
  then show ?case
    by (simp add: sent_on_append Cons.IH)
qed

lemma sent_on_other_loop_events: "c' \<noteq> c \<Longrightarrow> sent_on c' (loop_events c s ds) = []"
  by (induction ds arbitrary: s) (simp_all add: sent_on_append)

lemma adjust_triangle: "adjust (triangle i, heading i) = (triangle (Suc i), heading (Suc i))"
proof -
  have "i mod 72 < 72" by simp
  then show ?thesis
    by (auto simp: adjust_def triangle_def heading_def step_def Let_def mod_Suc)
qed

lemma funpow_adjust: "(adjust ^^ i) (0, 1) = (triangle i, heading i)"
proof (induction i)
  case 0
  show ?case by (simp add: triangle_def heading_def)
next
  case (Suc i)
  then show ?case by (simp add: adjust_triangle)
qed

lemma adjust_bounds: "0 \<le> fst (adjust s) \<and> fst (adjust s) \<le> 180"
  by (cases s) (simp add: adjust_def Let_def)

lemma triangle_bounds: "0 \<le> triangle i \<and> triangle i \<le> 180"
proof -
  have "i mod 72 < 72" by simp
  then show ?thesis by (auto simp: triangle_def step_def)
qed

lemma triangle_step:
  "triangle (Suc i) = (if i mod 72 < 36 then triangle i + step else triangle i - step)"
proof -
  have "i mod 72 < 72" by simp
  then show ?thesis by (auto simp: triangle_def step_def mod_Suc)
qed

lemma triangle_ends:
  "(triangle i = 180 \<longleftrightarrow> i mod 72 = 36) \<and> (triangle i = 0 \<longleftrightarrow> i mod 72 = 0)"
proof -
  have "i mod 72 < 72" by simp
  then show ?thesis by (auto simp: triangle_def step_def)
qed

lemma pulsing_get_distance:
  assumes "pulsing env"
  shows "\<exists>r w'. get_distance env w = Some (r, w')"
proof -
  from assms obtain i j where "reads w \<le> i" "i < j" "echo env i" "\<not> echo env j"
    unfolding pulsing_def by blast
  from first_pulse[OF this] obtain a b where "reads w \<le> a" "a < b"
    "\<forall>k. reads w \<le> k \<and> k < a \<longrightarrow> \<not> echo env k" "\<forall>k. a \<le> k \<and> k < b \<longrightarrow> echo env k" "\<not> echo env b"
    by (elim exE conjE)
  from get_distance_run[OF this] show ?thesis by (intro exI)
qed

lemma pulsing_sweep_loop:
  assumes "pulsing env"
  shows "\<exists>out w'. sweep_loop n env c s w = Some (out, w')"
proof (induction n arbitrary: s w)
  case 0
  obtain a d where "s = (a, d)" by (cases s)
  then show ?case by simp
next
  case (Suc n)
  obtain a d where s: "s = (a, d)" by (cases s)
  from pulsing_get_distance[OF assms] obtain r w1
    where gd: "get_distance env (servo_set_angle a w) = Some (r, w1)" by blast
  show ?case
  proof (cases "websocket_send env c (json_dumps (JObject [(''angle'', JInt a), (''distance'', JFloat r)])) w1")
    case (Pair x w2)
    show ?thesis
    proof (cases x)
      case (Inl e)
      with Pair gd show ?thesis by (simp add: s)
    next
      case (Inr u)
      from Suc.IH[of "adjust (a, d)" "asyncio_sleep (1 / 10) w2"] Inr Pair gd
      show ?thesis by (simp add: s)
    qed
  qed
qed

lemma pulsing_env_pulse: "pulsing env_pulse"
  unfolding pulsing_def
proof
  fix m :: nat
  have "(4 * m + 2) mod 4 = 2" "(4 * m + 4) mod 4 = 0"
    by presburger+
  then have "m \<le> 4 * m + 2 \<and> 4 * m + 2 < 4 * m + 4 \<and> echo env_pulse (4 * m + 2) \<and> \<not> echo env_pulse (4 * m + 4)"
    unfolding env_pulse_def by simp
  then show "\<exists>i j. m \<le> i \<and> i < j \<and> echo env_pulse i \<and> \<not> echo env_pulse j" by blast
qed


lemma since_append: "events w' = events w @ xs \<Longrightarrow> since w w' = xs"
  by (simp add: since_def)

lemma text_angle_reading [simp]: "text_angle (json_dumps (reading a d)) = Some a"
  by (simp add: json_dumps_def reading_def)

lemma sweep_sensor_trace:
  "sweep_sensor n env c w = Some (out, w') \<Longrightarrow> \<exists>ds. run_shape env c n (0, 1) w out w' ds"
  unfolding sweep_sensor_def by (rule sweep_loop_trace)

lemma run_shape_servo_angles:
  assumes "run_shape env c n (0, 1) w out w' ds"
  shows "servo_angles (since w w')
     = map triangle [0..<(case out of Running _ \<Rightarrow> length ds | _ \<Rightarrow> Suc (length ds))]"
proof (cases out)
  case (Running s')
  with assms have "since w w' = loop_events c (0, 1) ds"
    unfolding run_shape_def by (simp add: since_append)
  with Running show ?thesis
    by (simp add: servo_angles_loop_events funpow_adjust)
next
  case Returned
  with assms show ?thesis unfolding run_shape_def by simp
next
  case (Raised e)
  with assms have "since w w' = loop_events c (0, 1) ds
      @ ServoAngle (fst ((adjust ^^ length ds) (0, 1))) # trigger_events"
    unfolding run_shape_def by (simp add: since_append)
  with Raised show ?thesis
    by (simp add: servo_angles_append servo_angles_loop_events funpow_adjust)
qed

lemma run_shape_sent_on:
  assumes "run_shape env c n (0, 1) w out w' ds"
  shows "sent_on c (since w w')
     = map (\<lambda>i. json_dumps (reading (triangle i) (ds ! i))) [0..<length ds]"
    and "c' \<noteq> c \<Longrightarrow> sent_on c' (since w w') = []"
proof -
  have ev: "since w w' = loop_events c (0, 1) ds
      \<or> since w w' = loop_events c (0, 1) ds
           @ ServoAngle (fst ((adjust ^^ length ds) (0, 1))) # trigger_events"
    using assms unfolding run_shape_def
    by (cases out) (simp_all add: since_append)
  then show "sent_on c (since w w')
     = map (\<lambda>i. json_dumps (reading (triangle i) (ds ! i))) [0..<length ds]"
    by (auto simp: sent_on_append sent_on_loop_events funpow_adjust)
  assume "c' \<noteq> c"
  with ev show "sent_on c' (since w w') = []"
    by (auto simp: sent_on_append sent_on_other_loop_events)
qed

text \<open>
  C1. In every run of \<^verbatim>\<open>sweep_sensor\<close>, of any number of iterations, the angles
  assigned to the servo and the angles of the readings sent are, in order,
  \<open>triangle 0\<close>, \<open>triangle 1\<close>, and so on, one for each iteration begun; and \<open>triangle\<close>
  starts at 0, grows by \<open>step\<close> until it is 180, falls by \<open>step\<close> until it is 0, and
  repeats with period 72.
\<close>

theorem sweep_triangle_wave:
  assumes "sweep_sensor n env c w = Some (out, w')"
  shows "servo_angles (since w w') = map triangle [0..<length (servo_angles (since w w'))]
     \<and> map text_angle (sent_on c (since w w'))
         = map (\<lambda>i. Some (triangle i)) [0..<length (sent_on c (since w w'))]
     \<and> (\<forall>s. out = Running s \<longrightarrow>
           length (servo_angles (since w w')) = n \<and> length (sent_on c (since w w')) = n)
     \<and> triangle 0 = 0
     \<and> (\<forall>i. triangle (Suc i) = (if i mod 72 < 36 then triangle i + step else triangle i - step))
     \<and> (\<forall>i. (triangle i = 180 \<longleftrightarrow> i mod 72 = 36) \<and> (triangle i = 0 \<longleftrightarrow> i mod 72 = 0))"
proof -
  from sweep_sensor_trace[OF assms] obtain ds where ds: "run_shape env c n (0, 1) w out w' ds" ..
  note sa = run_shape_servo_angles[OF ds] and so = run_shape_sent_on(1)[OF ds]
  have 1: "servo_angles (since w w') = map triangle [0..<length (servo_angles (since w w'))]"
    by (subst (2) sa) (simp add: sa)
  have 2: "map text_angle (sent_on c (since w w'))
         = map (\<lambda>i. Some (triangle i)) [0..<length (sent_on c (since w w'))]"
    by (simp add: so)
  have 3: "\<forall>s. out = Running s \<longrightarrow>
           length (servo_angles (since w w')) = n \<and> length (sent_on c (since w w')) = n"
    using ds by (auto simp: sa so run_shape_def)
  have 4: "triangle 0 = 0" by (simp add: triangle_def step_def)
  from 1 2 3 4 triangle_step triangle_ends show ?thesis by blast
qed

lemma all_ok_running:
  assumes "sweep_loop n env c s w = Some (out, w')" and "\<forall>k. peer env c k = SendOk"
  shows "\<exists>s'. out = Running s'"
proof -
  from sweep_loop_trace[OF assms(1)] obtain ds where "run_shape env c n s w out w' ds" ..
  with assms(2) show ?thesis
    unfolding run_shape_def by (cases out) simp_all
qed

theorem sweep_triangle_wave_witness:
  "\<exists>out w'. sweep_sensor 4 env_pulse 1 world0 = Some (out, w')
     \<and> servo_angles (since world0 w') = [0, 5, 10, 15]"
proof -
  from pulsing_sweep_loop[OF pulsing_env_pulse] obtain out w'
    where run: "sweep_sensor 4 env_pulse 1 world0 = Some (out, w')"
    unfolding sweep_sensor_def by blast
  have "\<forall>k. peer env_pulse 1 k = SendOk" by (simp add: env_pulse_def)
  from all_ok_running[OF run[unfolded sweep_sensor_def] this] obtain s where s: "out = Running s" ..
  from sweep_triangle_wave[OF run] s
  have "servo_angles (since world0 w') = map triangle [0..<length (servo_angles (since world0 w'))]"
    and "length (servo_angles (since world0 w')) = 4"
    by blast+
  then have "servo_angles (since world0 w') = map triangle [0..<4]" by simp
  also have "\<dots> = [0, 5, 10, 15]" by (simp add: triangle_def step_def upt_rec)
  finally show ?thesis using run by blast
qed

text \<open>
  C2. Every angle assigned to the servo in a run of \<^verbatim>\<open>sweep_sensor\<close> lies between 0 and
  180; the update of lines 67 to 73 yields an angle in that range from any state, and
  so does the state of a loop still running.
\<close>

theorem servo_angle_bounds:
  assumes "sweep_sensor n env c w = Some (out, w')"
  shows "(\<forall>a\<in>set (servo_angles (since w w')). 0 \<le> a \<and> a \<le> 180)
     \<and> (\<forall>s. 0 \<le> fst (adjust s) \<and> fst (adjust s) \<le> 180)
     \<and> (\<forall>s. out = Running s \<longrightarrow> 0 \<le> fst s \<and> fst s \<le> 180)"
proof -
  from sweep_sensor_trace[OF assms] obtain ds where ds: "run_shape env c n (0, 1) w out w' ds" ..
  have 1: "\<forall>a\<in>set (servo_angles (since w w')). 0 \<le> a \<and> a \<le> 180"
    unfolding run_shape_servo_angles[OF ds] using triangle_bounds by auto
  have 3: "\<forall>s. out = Running s \<longrightarrow> 0 \<le> fst s \<and> fst s \<le> 180"
    using ds triangle_bounds[of n] unfolding run_shape_def by (auto simp: funpow_adjust)
  from 1 3 adjust_bounds show ?thesis by blast
qed

theorem servo_angle_bounds_witness:
  "\<exists>out w'. sweep_sensor 40 env_pulse 1 world0 = Some (out, w')
     \<and> list_all (\<lambda>a. 0 \<le> a \<and> a \<le> 180) (servo_angles (since world0 w'))"
proof -
  from pulsing_sweep_loop[OF pulsing_env_pulse] obtain out w'
    where run: "sweep_sensor 40 env_pulse 1 world0 = Some (out, w')"
    unfolding sweep_sensor_def by blast
  from servo_angle_bounds[OF run]
  have "list_all (\<lambda>a. 0 \<le> a \<and> a \<le> 180) (servo_angles (since world0 w'))"
    unfolding list_all_iff by blast
  with run show ?thesis by blast
qed

section \<open>The connection handler\<close>

lemma print_fields [simp]:
  "events (print s w) = events w @ [Print s]" "sends (print s w) = sends w"
  "chip_open (print s w) = chip_open w" "servo_open (print s w) = servo_open w"
  by (simp_all add: print_def emit_def)

lemma handler_cases:
  assumes "handler n env c path w = Some (out, w')"
  obtains (running) s where "sweep_sensor n env c (print ''Client connected'' w) = Some (Running s, w')"
      "out = Running s"
  | (closed) w1 where "sweep_sensor n env c (print ''Client connected'' w) = Some (Raised ConnectionClosed, w1)"
      "out = Returned" "w' = print ''Client disconnected'' w1"
  | (raised) e where "sweep_sensor n env c (print ''Client connected'' w) = Some (Raised e, w')"
      "out = Raised e" "e \<noteq> ConnectionClosed"
proof (cases "sweep_sensor n env c (print ''Client connected'' w)")
  case None
  with assms show ?thesis by (simp add: handler_def)
next
  case (Some p)
  obtain o1 w1 where p: "p = (o1, w1)" by (cases p)
  note run = Some[unfolded p]
  from sweep_sensor_trace[OF run] obtain ds where "run_shape env c n (0, 1) (print ''Client connected'' w) o1 w1 ds" ..
  then have nr: "o1 \<noteq> Returned" unfolding run_shape_def by auto
  show ?thesis
  proof (cases o1)
    case (Running s)
    with assms run show ?thesis by (intro running[of s]) (simp_all add: handler_def)
  next
    case Returned
    with nr show ?thesis by simp
  next
    case (Raised e)
    show ?thesis
    proof (cases "e = ConnectionClosed")
      case True
      with assms run Raised show ?thesis by (intro closed[of w1]) (simp_all add: handler_def)
    next
      case False
      with assms run Raised show ?thesis by (intro raised[of e]) (simp_all add: handler_def)
    qed
  qed
qed

lemma measurements_print: "measurements k env (print s w) = measurements k env w"
  by (rule measurements_counters) (simp_all add: print_def emit_def)

lemma handler_shape:
  assumes "handler n env c path w = Some (out, w')"
  shows "\<exists>ds. since w w' = handler_trace c ds out \<and> length ds \<le> n
      \<and> (\<forall>i<length ds. peer env c (sends w c + i) = SendOk)
      \<and> (\<forall>d\<in>set ds. \<exists>x. d = py_round2 x)
      \<and> run_measured env w out ds
      \<and> chip_open w' = chip_open w \<and> servo_open w' = servo_open w
      \<and> (case out of
            Running s \<Rightarrow> length ds = n
          | Returned \<Rightarrow> peer env c (sends w c + length ds) = SendRaises ConnectionClosed
          | Raised e \<Rightarrow> e \<noteq> ConnectionClosed \<and> peer env c (sends w c + length ds) = SendRaises e)"
  using assms
proof (cases rule: handler_cases)
  case (running s)
  from sweep_sensor_trace[OF running(1)] obtain ds
    where "run_shape env c n (0, 1) (print ''Client connected'' w) (Running s) w' ds" ..
  then show ?thesis
    unfolding run_shape_def running(2) handler_trace_def
    by (intro exI[of _ ds]) (auto simp: since_def run_measured_def measurements_print)
next
  case (closed w1)
  from sweep_sensor_trace[OF closed(1)] obtain ds
    where "run_shape env c n (0, 1) (print ''Client connected'' w) (Raised ConnectionClosed) w1 ds" ..
  then show ?thesis
    unfolding run_shape_def closed(2,3) handler_trace_def
    by (intro exI[of _ ds])
      (simp add: since_def funpow_adjust run_measured_def measurements_print
        del: measurements.simps)
next
  case (raised e)
  from sweep_sensor_trace[OF raised(1)] obtain ds
    where "run_shape env c n (0, 1) (print ''Client connected'' w) (Raised e) w' ds" ..
  with raised(3) show ?thesis
    unfolding run_shape_def raised(2) handler_trace_def
    by (intro exI[of _ ds])
      (simp add: since_def funpow_adjust run_measured_def measurements_print
        del: measurements.simps)
qed

lemma sent_on_handler_trace:
  "sent_on c' (handler_trace c ds out)
     = (if c' = c then map (\<lambda>i. json_dumps (reading (triangle i) (ds ! i))) [0..<length ds] else [])"
  by (cases out)
    (simp_all add: handler_trace_def sent_on_append sent_on_loop_events sent_on_other_loop_events
      funpow_adjust)

lemma py_round2_cases:
  "py_round2 x = PosInf \<or> py_round2 x = NegInf \<or> py_round2 x = NaN
     \<or> (\<exists>k::int. py_round2 x = to_double (of_int k / 100))"
  by (cases x) auto

lemma pulsing_env_two: "pulsing env_two"
  unfolding pulsing_def
proof
  fix m :: nat
  have "(4 * m + 2) mod 4 = 2" "(4 * m + 4) mod 4 = 0"
    by presburger+
  then have "m \<le> 4 * m + 2 \<and> 4 * m + 2 < 4 * m + 4 \<and> echo env_two (4 * m + 2) \<and> \<not> echo env_two (4 * m + 4)"
    unfolding env_two_def by simp
  then show "\<exists>i j. m \<le> i \<and> i < j \<and> echo env_two i \<and> \<not> echo env_two j" by blast
qed

lemma handler_env_two_returns:
  "map_option fst (handler 5 env_two 1 [] world0) = Some Returned"
  by code_simp

lemma pulsing_handler:
  assumes "pulsing env"
  shows "\<exists>out w'. handler n env c path w = Some (out, w')"
proof -
  from pulsing_sweep_loop[OF assms] obtain o1 w1
    where "sweep_sensor n env c (print ''Client connected'' w) = Some (o1, w1)"
    unfolding sweep_sensor_def by blast
  then show ?thesis
    by (cases o1) (simp_all add: handler_def)
qed

lemma first_failure:
  assumes "\<forall>i<length ds. peer env c (b + i) = SendOk"
    and "peer env c (b + length ds) = SendRaises e'"
    and "\<forall>i<k. peer env c (b + i) = SendOk"
    and "peer env c (b + k) = SendRaises e"
  shows "length ds = k \<and> e' = e"
proof -
  have "\<not> length ds < k"
  proof
    assume "length ds < k"
    with assms(3) have "peer env c (b + length ds) = SendOk" by blast
    with assms(2) show False by simp
  qed
  moreover have "\<not> k < length ds"
  proof
    assume "k < length ds"
    with assms(1) have "peer env c (b + k) = SendOk" by blast
    with assms(4) show False by simp
  qed
  ultimately have "length ds = k" by simp
  with assms(2,4) show ?thesis by simp
qed

lemma measurements_env_two:
  "measurements 3 env_two world0 = Some [to_double (343 / 10), to_double (343 / 10), to_double (343 / 10)]"
  by code_simp

text \<open>
  C8. The events of a run of \<^verbatim>\<open>handler\<close> are those of \<open>handler_trace\<close>: after the
  greeting, one block per reading sent, each made of the servo assignment, the trigger
  pulse of the distance measurement, the send of the serialised reading and the sleep
  of a tenth of a second, in this order. The distances serialised and sent are, in
  order, the values that the successive calls of \<^verbatim>\<open>get_distance\<close> returned from the
  world the run started in. All sends of these blocks succeeded. The run is still in
  the loop after \<open>n\<close> blocks, or the servo was set and the distance read once more and
  the next send raised: the handler then returned when the exception was
  \<^verbatim>\<open>ConnectionClosed\<close>, and was left by it otherwise.
\<close>

theorem handler_iterations:
  assumes "handler n env c path w = Some (out, w')"
  shows "\<exists>ds. since w w' = handler_trace c ds out \<and> length ds \<le> n
      \<and> (\<forall>i<length ds. peer env c (sends w c + i) = SendOk)
      \<and> (case out of
            Running s \<Rightarrow> length ds = n \<and> measurements n env w = Some ds
          | Returned \<Rightarrow> peer env c (sends w c + length ds) = SendRaises ConnectionClosed
              \<and> (\<exists>d. measurements (Suc (length ds)) env w = Some (ds @ [d]))
          | Raised e \<Rightarrow> e \<noteq> ConnectionClosed \<and> peer env c (sends w c + length ds) = SendRaises e
              \<and> (\<exists>d. measurements (Suc (length ds)) env w = Some (ds @ [d])))"
proof -
  from handler_shape[OF assms] obtain ds where tr: "since w w' = handler_trace c ds out"
    and len: "length ds \<le> n"
    and ok: "\<forall>i<length ds. peer env c (sends w c + i) = SendOk"
    and rm: "run_measured env w out ds"
    and out: "case out of
            Running s \<Rightarrow> length ds = n
          | Returned \<Rightarrow> peer env c (sends w c + length ds) = SendRaises ConnectionClosed
          | Raised e \<Rightarrow> e \<noteq> ConnectionClosed \<and> peer env c (sends w c + length ds) = SendRaises e"
    by (elim exE conjE)
  from rm out have "case out of
            Running s \<Rightarrow> length ds = n \<and> measurements n env w = Some ds
          | Returned \<Rightarrow> peer env c (sends w c + length ds) = SendRaises ConnectionClosed
              \<and> (\<exists>d. measurements (Suc (length ds)) env w = Some (ds @ [d]))
          | Raised e \<Rightarrow> e \<noteq> ConnectionClosed \<and> peer env c (sends w c + length ds) = SendRaises e
              \<and> (\<exists>d. measurements (Suc (length ds)) env w = Some (ds @ [d]))"
    unfolding run_measured_def by (cases out) (auto simp del: measurements.simps)
  with tr len ok show ?thesis by (intro exI[of _ ds] conjI)
qed

theorem handler_iterations_witness:
  "\<exists>w'. handler 5 env_two 1 [] world0 = Some (Returned, w')
     \<and> since world0 w' = handler_trace 1 [to_double (343 / 10), to_double (343 / 10)] Returned"
proof -
  from handler_env_two_returns obtain w' where run: "handler 5 env_two 1 [] world0 = Some (Returned, w')"
    by auto
  from handler_iterations[OF run] obtain ds d where tr: "since world0 w' = handler_trace 1 ds Returned"
    and ok: "\<forall>i<length ds. peer env_two 1 (sends world0 1 + i) = SendOk"
    and cl: "peer env_two 1 (sends world0 1 + length ds) = SendRaises ConnectionClosed"
    and ms: "measurements (Suc (length ds)) env_two world0 = Some (ds @ [d])"
    by auto
  have "\<forall>i<2. peer env_two 1 (sends world0 1 + i) = SendOk"
    "peer env_two 1 (sends world0 1 + 2) = SendRaises ConnectionClosed"
    by (simp_all add: env_two_def world0_def)
  from first_failure[OF ok cl this] have l: "length ds = 2" by simp
  with ms have "measurements 3 env_two world0 = Some (ds @ [d])"
    by (simp add: numeral_3_eq_3 del: measurements.simps)
  with measurements_env_two have "ds @ [d] = [to_double (343 / 10), to_double (343 / 10), to_double (343 / 10)]"
    by simp
  with l have "ds = [to_double (343 / 10), to_double (343 / 10)]"
    by (cases ds; cases "tl ds") auto
  with run tr show ?thesis by blast
qed

text \<open>
  C5. On a pulsing echo line, when the first send of a connection to raise is send
  \<open>k\<close> and raises \<open>e\<close>, every run of \<^verbatim>\<open>handler\<close> of more than \<open>k\<close> iterations ends
  after \<open>k\<close> readings were sent: for \<^verbatim>\<open>ConnectionClosed\<close> it returns and its last event
  is the line \<^verbatim>\<open>Client disconnected\<close>; for any other exception it is left by that
  exception and prints no such line.
\<close>

theorem handler_disconnect:
  assumes "pulsing env" and "\<forall>i<k. peer env c (sends w c + i) = SendOk"
    and "peer env c (sends w c + k) = SendRaises e" and "k < n"
  shows "\<exists>w'. handler n env c path w = Some (if e = ConnectionClosed then Returned else Raised e, w')
       \<and> length (sent_on c (since w w')) = k
       \<and> (e = ConnectionClosed \<longrightarrow> last (events w') = Print ''Client disconnected'')
       \<and> (e \<noteq> ConnectionClosed \<longrightarrow> Print ''Client disconnected'' \<notin> set (since w w'))"
proof -
  from pulsing_handler[OF assms(1)] obtain out w' where run: "handler n env c path w = Some (out, w')"
    by blast
  from handler_shape[OF run] obtain ds where tr: "since w w' = handler_trace c ds out"
    and ok: "\<forall>i<length ds. peer env c (sends w c + i) = SendOk"
    and out: "case out of
            Running s \<Rightarrow> length ds = n
          | Returned \<Rightarrow> peer env c (sends w c + length ds) = SendRaises ConnectionClosed
          | Raised e \<Rightarrow> e \<noteq> ConnectionClosed \<and> peer env c (sends w c + length ds) = SendRaises e"
    by (elim exE conjE)
  have nr: "\<nexists>s. out = Running s"
  proof
    assume "\<exists>s. out = Running s"
    with out have "length ds = n" by auto
    with ok assms(4) have "peer env c (sends w c + k) = SendOk" by blast
    with assms(3) show False by simp
  qed
  have res: "out = (if e = ConnectionClosed then Returned else Raised e) \<and> length ds = k"
  proof (cases out)
    case (Running s)
    with nr show ?thesis by blast
  next
    case Returned
    with out have "peer env c (sends w c + length ds) = SendRaises ConnectionClosed" by simp
    from first_failure[OF ok this assms(2,3)] Returned show ?thesis by simp
  next
    case (Raised e')
    with out have e': "e' \<noteq> ConnectionClosed" "peer env c (sends w c + length ds) = SendRaises e'"
      by simp_all
    from first_failure[OF ok e'(2) assms(2,3)] e'(1) Raised show ?thesis by simp
  qed
  have len: "length (sent_on c (since w w')) = k"
    unfolding tr sent_on_handler_trace using res by simp
  have ev: "events w' = events w @ since w w'"
  proof -
    from run have "\<exists>xs. events w' = events w @ xs"
    proof (cases rule: handler_cases)
      case (running s)
      from sweep_sensor_trace[OF running(1)] show ?thesis
        unfolding run_shape_def by auto
    next
      case (closed w1)
      from sweep_sensor_trace[OF closed(1)] show ?thesis
        unfolding run_shape_def closed(3) by auto
    next
      case (raised e)
      from sweep_sensor_trace[OF raised(1)] show ?thesis
        unfolding run_shape_def by auto
    qed
    then show ?thesis by (auto simp: since_def)
  qed
  have a: "e = ConnectionClosed \<longrightarrow> last (events w') = Print ''Client disconnected''"
    using res unfolding ev tr handler_trace_def by simp
  have np: "Print s \<notin> set (loop_events c' s' ds')" for s c' s' ds'
    by (induction ds' arbitrary: s') (simp_all add: trigger_events_def)
  have b: "e \<noteq> ConnectionClosed \<longrightarrow> Print ''Client disconnected'' \<notin> set (since w w')"
    using res np unfolding tr handler_trace_def by (simp add: trigger_events_def)
  from run res len a b show ?thesis by (intro exI[of _ w']) simp
qed

theorem handler_disconnect_witness:
  "\<exists>w'. handler 5 env_two 1 [] world0 = Some (Returned, w')
     \<and> length (sent_on 1 (since world0 w')) = 2
     \<and> last (events w') = Print ''Client disconnected''"
proof -
  have "\<forall>i<2. peer env_two 1 (sends world0 1 + i) = SendOk"
    "peer env_two 1 (sends world0 1 + 2) = SendRaises ConnectionClosed" "(2::nat) < 5"
    by (simp_all add: env_two_def world0_def)
  from handler_disconnect[OF pulsing_env_two this, of "[]"] show ?thesis by simp
qed


lemma servo_angles_handler_trace:
  "servo_angles (handler_trace c ds out)
     = map triangle [0..<(case out of Running _ \<Rightarrow> length ds | _ \<Rightarrow> Suc (length ds))]"
  by (cases out)
    (simp_all add: handler_trace_def servo_angles_append servo_angles_loop_events funpow_adjust)


lemma infinity_chars:
  "text_chars float_repr (json_dumps (JObject [(''angle'', JInt 0), (''distance'', JFloat PosInf)]))
     = ''{\"angle\": 0, \"distance\": Infinity}''"
  by (simp add: json_dumps_def quoted_def escape_char_def int_chars_def nat_chars.simps)







text \<open>
  C9. From whatever world a run of \<^verbatim>\<open>handler\<close> starts, the first reading it sends has
  angle 0, the second has angle \<open>step\<close>, and the first angle it assigns to the servo is 0.
\<close>

theorem sweep_state_per_connection:
  assumes "handler n env c path w = Some (out, w')"
  shows "(\<forall>t ts. sent_on c (since w w') = t # ts \<longrightarrow> text_angle t = Some 0)
     \<and> (\<forall>t t' ts. sent_on c (since w w') = t # t' # ts \<longrightarrow> text_angle t' = Some step)
     \<and> (\<forall>a as. servo_angles (since w w') = a # as \<longrightarrow> a = 0)"
proof -
  from handler_shape[OF assms] obtain ds where tr: "since w w' = handler_trace c ds out"
    by (elim exE conjE)
  have t0: "triangle 0 = 0" and t1: "triangle 1 = step"
    by (simp_all add: triangle_def step_def)
  have so: "map text_angle (sent_on c (since w w')) = map (\<lambda>i. Some (triangle i)) [0..<length ds]"
    unfolding tr sent_on_handler_trace by simp
  have 1: "\<forall>t ts. sent_on c (since w w') = t # ts \<longrightarrow> text_angle t = Some 0"
  proof (intro allI impI)
    fix t ts assume e: "sent_on c (since w w') = t # ts"
    with so have "text_angle t # map text_angle ts = map (\<lambda>i. Some (triangle i)) [0..<length ds]"
      by simp
    then show "text_angle t = Some 0"
      by (cases ds) (simp_all add: upt_rec[of 0] t0 del: upt_Suc)
  qed
  have 2: "\<forall>t t' ts. sent_on c (since w w') = t # t' # ts \<longrightarrow> text_angle t' = Some step"
  proof (intro allI impI)
    fix t t' ts assume e: "sent_on c (since w w') = t # t' # ts"
    with so have m: "text_angle t # text_angle t' # map text_angle ts
        = map (\<lambda>i. Some (triangle i)) [0..<length ds]"
      by simp
    from arg_cong[OF m, of length] have "2 \<le> length ds" by simp
    then obtain d0 d1 ds' where "ds = d0 # d1 # ds'"
      by (cases ds; cases "tl ds") auto
    with m show "text_angle t' = Some step"
      using t1 by (simp add: upt_rec[of 0] upt_rec[of "Suc 0"] del: upt_Suc)
  qed
  have 3: "\<forall>a as. servo_angles (since w w') = a # as \<longrightarrow> a = 0"
  proof (intro allI impI)
    fix a as assume "servo_angles (since w w') = a # as"
    then have "a # as = map triangle [0..<(case out of Running _ \<Rightarrow> length ds | _ \<Rightarrow> Suc (length ds))]"
      unfolding tr servo_angles_handler_trace by simp
    then show "a = 0"
      by (cases "case out of Running _ \<Rightarrow> length ds | _ \<Rightarrow> Suc (length ds)")
        (simp_all add: upt_rec[of 0] t0 del: upt_Suc)
  qed
  from 1 2 3 show ?thesis by (intro conjI)
qed

theorem sweep_state_per_connection_witness:
  "\<exists>w1 out w2 t t' ts. handler 5 env_two 1 [] world0 = Some (Returned, w1)
     \<and> handler 3 env_two 2 [] w1 = Some (out, w2)
     \<and> sent_on 2 (since w1 w2) = t # t' # ts \<and> text_angle t = Some 0 \<and> text_angle t' = Some 5"
proof -
  from handler_env_two_returns obtain w1 where run1: "handler 5 env_two 1 [] world0 = Some (Returned, w1)"
    by auto
  from pulsing_handler[OF pulsing_env_two] obtain out w2
    where run2: "handler 3 env_two 2 [] w1 = Some (out, w2)" by blast
  from handler_shape[OF run2] obtain ds where tr: "since w1 w2 = handler_trace 2 ds out"
    and out: "case out of
            Running s \<Rightarrow> length ds = 3
          | Returned \<Rightarrow> peer env_two 2 (sends w1 2 + length ds) = SendRaises ConnectionClosed
          | Raised e \<Rightarrow> e \<noteq> ConnectionClosed \<and> peer env_two 2 (sends w1 2 + length ds) = SendRaises e"
    by (elim exE conjE)
  have "peer env_two 2 k = SendOk" for k by (simp add: env_two_def)
  with out have "length ds = 3" by (cases out) simp_all
  then have "length (sent_on 2 (since w1 w2)) = 3"
    unfolding tr sent_on_handler_trace by simp
  then obtain t t' ts where s: "sent_on 2 (since w1 w2) = t # t' # ts"
    by (cases "sent_on 2 (since w1 w2)"; cases "tl (sent_on 2 (since w1 w2))") auto
  from sweep_state_per_connection[OF run2] s
  have "text_angle t = Some 0" "text_angle t' = Some 5"
    by (simp_all add: step_def)
  with run1 run2 s show ?thesis by blast
qed


text \<open>
  C6, as stated, fails: after an event loop interrupted from the keyboard, and the
  cleanup that follows, the servo is still open.
\<close>

theorem cleanup_leaves_servo:
  "map_option (servo_open \<circ> snd) (main_block interrupted (startup world0)) = Some True"
  by (simp add: main_block_def interrupted_def startup_def gpiochip_close_def emit_def world0_def)

text \<open>
  C6, amended. Whenever \<^verbatim>\<open>asyncio.run(main())\<close> comes back, by returning or by raising,
  the \<^verbatim>\<open>finally\<close> clause closes the GPIO chip handle as the last event and passes the
  outcome on; it leaves the servo as it was, and no run of \<^verbatim>\<open>handler\<close> releases the
  servo or the chip handle either.
\<close>

theorem cleanup_closes_chip:
  assumes "run w = Some (r, w1)"
  shows "main_block run w = Some (r, gpiochip_close w1)
     \<and> \<not> chip_open (gpiochip_close w1)
     \<and> last (events (gpiochip_close w1)) = GpioChipClose
     \<and> servo_open (gpiochip_close w1) = servo_open w1
     \<and> (\<forall>n env c path w0 out w'. handler n env c path w0 = Some (out, w') \<longrightarrow>
           servo_open w' = servo_open w0 \<and> chip_open w' = chip_open w0)"
proof -
  have "\<forall>n env c path w0 out w'. handler n env c path w0 = Some (out, w') \<longrightarrow>
           servo_open w' = servo_open w0 \<and> chip_open w' = chip_open w0"
  proof (intro allI impI)
    fix n env c path w0 out w'
    assume "handler n env c path w0 = Some (out, w')"
    from handler_shape[OF this] show "servo_open w' = servo_open w0 \<and> chip_open w' = chip_open w0"
      by (elim exE conjE) simp
  qed
  with assms show ?thesis
    by (simp add: main_block_def gpiochip_close_def emit_def)
qed

theorem cleanup_closes_chip_witness:
  "main_block interrupted (startup world0)
     = Some (Some KeyboardInterrupt, gpiochip_close (startup world0))
   \<and> \<not> chip_open (gpiochip_close (startup world0))"
proof -
  have "interrupted (startup world0) = Some (Some KeyboardInterrupt, startup world0)"
    by (simp add: interrupted_def)
  from cleanup_closes_chip[of interrupted "startup world0", OF this] show ?thesis
    by (intro conjI) (elim conjE, assumption)+
qed

end
